theory Spec2Isabelle
  imports Main "HOL-Library.Word" "HOL-Library.List_Lexorder"
begin

section \<open>Memory: regions, raw pointers and shared ownership\<close>

text \<open>
  The buffers of \<^verbatim>\<open>hse.h\<close> hold raw pointers (\<^verbatim>\<open>uint8_t*\<close>) and a
  \<^verbatim>\<open>shared_ptr<uint8_t>\<close>. Memory is a list of regions, an address is the index of
  a region; a region is its bytes and the use count of the shared pointers that own it
  (0 for memory that belongs to the caller). A freed region is \<open>None\<close>; addresses are
  not handed out twice. \<^verbatim>\<open>unsigned long\<close> is 64 bits wide.
\<close>

type_synonym byte = "8 word"
type_synonym ulong = "64 word"
type_synonym addr = nat
type_synonym region = "byte list \<times> nat"
type_synonym heap = "region option list"

datatype fault = MemoryFault

definition region_at :: "heap \<Rightarrow> addr \<Rightarrow> region option" where
  "region_at h a = (if a < length h then h ! a else None)"

text \<open>\<^verbatim>\<open>new uint8_t[n]\<close>: a fresh region of \<open>n\<close> bytes that no shared pointer owns yet.
  Its bytes are indeterminate in C++; the model fills them with zeros.\<close>

definition new_array :: "nat \<Rightarrow> heap \<Rightarrow> addr \<times> heap" where
  "new_array n h = (length h, h @ [Some (replicate n 0, 0)])"

text \<open>Copying a \<^verbatim>\<open>shared_ptr\<close> adds an owner; dropping one removes an owner and runs
  the deleter (\<^verbatim>\<open>delete[] p\<close>) when it was the last.\<close>

definition sp_acquire :: "addr option \<Rightarrow> heap \<Rightarrow> heap" where
  "sp_acquire p h =
     (case p of None \<Rightarrow> h
      | Some a \<Rightarrow> (case region_at h a of None \<Rightarrow> h
                   | Some (bs, c) \<Rightarrow> h[a := Some (bs, Suc c)]))"

definition sp_release :: "addr option \<Rightarrow> heap \<Rightarrow> heap" where
  "sp_release p h =
     (case p of None \<Rightarrow> h
      | Some a \<Rightarrow> (case region_at h a of None \<Rightarrow> h
                   | Some (bs, c) \<Rightarrow> if c \<le> 1 then h[a := None] else h[a := Some (bs, c - 1)]))"

text \<open>\<^verbatim>\<open>sp.reset(p, deleter)\<close>: give up the old target, become the only owner of \<open>p\<close>.\<close>

definition sp_reset :: "addr option \<Rightarrow> addr \<Rightarrow> heap \<Rightarrow> heap" where
  "sp_reset old p h = sp_acquire (Some p) (sp_release old h)"

text \<open>Reading \<open>n\<close> bytes at a pointer, and writing bytes at a pointer plus an offset. An
  access of no bytes touches nothing; any other access through a null or dangling pointer,
  or past the end of the region, is undefined behaviour in C++ and a \<open>MemoryFault\<close> here.\<close>

definition load :: "heap \<Rightarrow> addr option \<Rightarrow> nat \<Rightarrow> fault + byte list" where
  "load h p n =
     (if n = 0 then Inr []
      else case p of None \<Rightarrow> Inl MemoryFault
      | Some a \<Rightarrow> (case region_at h a of None \<Rightarrow> Inl MemoryFault
                   | Some (bs, c) \<Rightarrow> if n \<le> length bs then Inr (take n bs) else Inl MemoryFault))"

definition store :: "heap \<Rightarrow> addr option \<Rightarrow> nat \<Rightarrow> byte list \<Rightarrow> fault + heap" where
  "store h p off src =
     (if src = [] then Inr h
      else case p of None \<Rightarrow> Inl MemoryFault
      | Some a \<Rightarrow> (case region_at h a of None \<Rightarrow> Inl MemoryFault
                   | Some (bs, c) \<Rightarrow>
                       if off + length src \<le> length bs
                       then Inr (h[a := Some (take off bs @ src @ drop (off + length src) bs, c)])
                       else Inl MemoryFault))"

text \<open>\<^verbatim>\<open>memcpy(dst + off, src, n)\<close> with both pointers into the modelled memory.\<close>

definition memcpy :: "heap \<Rightarrow> addr option \<Rightarrow> nat \<Rightarrow> addr option \<Rightarrow> nat \<Rightarrow> fault + heap" where
  "memcpy h dst off src n =
     (case load h src n of Inl e \<Rightarrow> Inl e | Inr bs \<Rightarrow> store h dst off bs)"

text \<open>\<^verbatim>\<open>memcpy(dst + off, str, n)\<close> where the source pointer is an argument of the call:
  the argument is represented by the bytes \<open>str\<close> readable at it (\<^verbatim>\<open>memcpy\<close> requires that
  they do not overlap the destination).\<close>

definition memcpy_arg :: "heap \<Rightarrow> addr option \<Rightarrow> nat \<Rightarrow> byte list \<Rightarrow> nat \<Rightarrow> fault + heap" where
  "memcpy_arg h dst off str n =
     (if n \<le> length str then store h dst off (take n str) else Inl MemoryFault)"

text \<open>\<^verbatim>\<open>strlen\<close>: the number of bytes before the first zero byte of the region.\<close>

definition strlen :: "heap \<Rightarrow> addr option \<Rightarrow> fault + nat" where
  "strlen h p =
     (case p of None \<Rightarrow> Inl MemoryFault
      | Some a \<Rightarrow> (case region_at h a of None \<Rightarrow> Inl MemoryFault
                   | Some (bs, c) \<Rightarrow> if 0 \<in> set bs then Inr (length (takeWhile (\<lambda>x. x \<noteq> 0) bs))
                                     else Inl MemoryFault))"

section \<open>Status and KVDBData (hse.h)\<close>

datatype Status = Status (err: ulong)

definition ok :: "Status \<Rightarrow> bool" where
  "ok st = (0 = err st)"

definition EMSGSIZE :: ulong where
  "EMSGSIZE = 90"

record KVDBData =
  m_data :: "addr option"
  m_bufLen :: ulong
  m_len :: ulong
  m_owned :: bool
  m_ownedData :: "addr option"
  m_allocLen :: ulong

text \<open>The default member initialisers, that is \<^verbatim>\<open>KVDBData()\<close>.\<close>

definition KVDBData_default :: KVDBData where
  "KVDBData_default =
     \<lparr>m_data = None, m_bufLen = 0, m_len = 0, m_owned = False, m_ownedData = None, m_allocLen = 0\<rparr>"

text \<open>The implicit copy constructor copies every member, the shared pointer among them;
  the destructor drops the shared pointer.\<close>

definition copy_ctor :: "KVDBData \<Rightarrow> heap \<Rightarrow> KVDBData \<times> heap" where
  "copy_ctor b h = (b, sp_acquire (m_ownedData b) h)"

definition dtor :: "KVDBData \<Rightarrow> heap \<Rightarrow> heap" where
  "dtor b h = sp_release (m_ownedData b) h"

definition data :: "KVDBData \<Rightarrow> addr option" where
  "data b = (if m_owned b then m_ownedData b else m_data b)"

definition len :: "KVDBData \<Rightarrow> ulong" where
  "len b = m_len b"

definition adjustLen :: "ulong \<Rightarrow> KVDBData \<Rightarrow> KVDBData" where
  "adjustLen copied b = b\<lparr>m_len := m_len b + copied\<rparr>"

text \<open>\<^verbatim>\<open>createOwned\<close> and \<^verbatim>\<open>makeOwned\<close> change \<^verbatim>\<open>*this\<close> and return a copy of it by
  value: the result is the returned copy, the changed object and the memory.\<close>

definition createOwned :: "ulong \<Rightarrow> KVDBData \<Rightarrow> heap \<Rightarrow> KVDBData \<times> KVDBData \<times> heap" where
  "createOwned l b h =
     (let (nData, h1) = new_array (unat l) h;
          h2 = sp_reset (m_ownedData b) nData h1;
          this = b\<lparr>m_allocLen := l, m_ownedData := Some nData, m_owned := True, m_len := 0\<rparr>;
          (r, h3) = copy_ctor this h2
      in (r, this, h3))"

definition makeOwned :: "KVDBData \<Rightarrow> heap \<Rightarrow> fault + (KVDBData \<times> KVDBData \<times> heap)" where
  "makeOwned b h =
     (if \<not> m_owned b then
        (let (nData, h1) = new_array (unat (m_bufLen b)) h in
         case memcpy h1 (Some nData) 0 (m_data b) (unat (m_len b)) of
           Inl e \<Rightarrow> Inl e
         | Inr h2 \<Rightarrow>
            (let h3 = sp_reset (m_ownedData b) nData h2;
                 this = b\<lparr>m_allocLen := m_bufLen b, m_ownedData := Some nData, m_owned := True\<rparr>;
                 (r, h4) = copy_ctor this h3
             in Inr (r, this, h4)))
      else (let (r, h1) = copy_ctor b h in Inr (r, b, h1)))"

text \<open>The constructors. \<^verbatim>\<open>KVDBData(uint8_t* cStr)\<close> sets the pointer and the length and
  leaves \<^verbatim>\<open>_bufLen\<close> at its initialiser.\<close>

definition KVDBData_cStr :: "addr option \<Rightarrow> heap \<Rightarrow> fault + KVDBData" where
  "KVDBData_cStr cStr h =
     (case strlen h cStr of Inl e \<Rightarrow> Inl e
      | Inr n \<Rightarrow> Inr (KVDBData_default\<lparr>m_data := cStr, m_len := word_of_nat n + 1\<rparr>))"

definition KVDBData_str :: "addr option \<Rightarrow> ulong \<Rightarrow> KVDBData" where
  "KVDBData_str str l = KVDBData_default\<lparr>m_data := str, m_bufLen := l, m_len := l\<rparr>"

text \<open>\<^verbatim>\<open>KVDBData(const string& s)\<close>: \<open>s_c_str\<close> is \<^verbatim>\<open>s.c_str()\<close>, \<open>s_size\<close> is
  \<^verbatim>\<open>s.size()\<close>.\<close>

definition KVDBData_string :: "addr option \<Rightarrow> ulong \<Rightarrow> KVDBData" where
  "KVDBData_string s_c_str s_size =
     KVDBData_default\<lparr>m_data := s_c_str, m_bufLen := s_size, m_len := s_size\<rparr>"

text \<open>\<^verbatim>\<open>KVDBData(const uint8_t* cStr) : KVDBData{(char*)cStr}\<close>: no constructor takes a
  \<^verbatim>\<open>char*\<close>, so the argument is converted to a temporary \<^verbatim>\<open>std::string\<close> and the
  constructor from \<^verbatim>\<open>const string&\<close> runs on it; the temporary, a copy of the characters
  before the zero byte, is gone when the constructor returns.\<close>

definition KVDBData_const_cStr :: "addr option \<Rightarrow> heap \<Rightarrow> fault + (KVDBData \<times> heap)" where
  "KVDBData_const_cStr cStr h =
     (case strlen h cStr of Inl e \<Rightarrow> Inl e
      | Inr n \<Rightarrow>
         (case load h cStr n of Inl e \<Rightarrow> Inl e
          | Inr cs \<Rightarrow>
             (let s = length h;
                  h1 = h @ [Some (cs, 0)];
                  this = KVDBData_string (Some s) (word_of_nat n)
              in Inr (this, h1[s := None]))))"

definition KVDBData_mem :: "addr option \<Rightarrow> ulong \<Rightarrow> bool \<Rightarrow> heap \<Rightarrow> fault + (KVDBData \<times> heap)" where
  "KVDBData_mem mem l own h =
     (if own then
        (let (tmp, this, h1) = createOwned l KVDBData_default h;
             h2 = dtor tmp h1
         in case memcpy h2 (m_ownedData this) 0 mem (unat l) of
              Inl e \<Rightarrow> Inl e
            | Inr h3 \<Rightarrow> Inr (this\<lparr>m_len := l\<rparr>, h3))
      else Inr (KVDBData_default\<lparr>m_data := mem, m_bufLen := l, m_len := l\<rparr>, h))"

definition setReadBuf :: "addr option \<Rightarrow> ulong \<Rightarrow> KVDBData \<Rightarrow> KVDBData" where
  "setReadBuf buf l b =
     b\<lparr>m_data := buf, m_bufLen := l, m_len := 0, m_owned := False, m_allocLen := l\<rparr>"

definition getAllocLen :: "KVDBData \<Rightarrow> ulong" where
  "getAllocLen b = m_allocLen b"

definition clone :: "KVDBData \<Rightarrow> heap \<Rightarrow> fault + (KVDBData \<times> heap)" where
  "clone b h =
     (let (tmp, h1) = copy_ctor b h in
      case makeOwned tmp h1 of
        Inl e \<Rightarrow> Inl e
      | Inr (r, tmp', h2) \<Rightarrow> Inr (r, dtor tmp' h2))"

definition destroy :: "KVDBData \<Rightarrow> heap \<Rightarrow> KVDBData \<times> heap" where
  "destroy b h =
     (b\<lparr>m_data := None, m_ownedData := None, m_len := 0, m_bufLen := 0, m_owned := False,
        m_allocLen := 0\<rparr>,
      sp_release (m_ownedData b) h)"

definition copy :: "byte list \<Rightarrow> ulong \<Rightarrow> KVDBData \<Rightarrow> heap \<Rightarrow> fault + (Status \<times> KVDBData \<times> heap)" where
  "copy str l b h =
     (if m_owned b \<and> l \<le> m_allocLen b - m_len b then
        (case memcpy_arg h (m_ownedData b) (unat (m_len b)) str (unat l) of
           Inl e \<Rightarrow> Inl e
         | Inr h' \<Rightarrow> Inr (Status 0, adjustLen l b, h'))
      else if \<not> m_owned b \<and> l \<le> m_bufLen b - m_len b then
        (case memcpy_arg h (m_data b) (unat (m_len b)) str (unat l) of
           Inl e \<Rightarrow> Inl e
         | Inr h' \<Rightarrow> Inr (Status 0, adjustLen l b, h'))
      else Inr (Status EMSGSIZE, b, h))"

subsection \<open>Capacity, valid bytes and well-formedness\<close>

text \<open>The capacity of a buffer is the length of its own allocation when it is owned and
  the length of the region it was given otherwise: the two bounds \<^verbatim>\<open>copy\<close> tests.\<close>

definition capacity :: "KVDBData \<Rightarrow> ulong" where
  "capacity b = (if m_owned b then m_allocLen b else m_bufLen b)"

definition length_le_capacity :: "KVDBData \<Rightarrow> bool" where
  "length_le_capacity b = (m_len b \<le> capacity b)"

definition valid_bytes :: "heap \<Rightarrow> KVDBData \<Rightarrow> fault + byte list" where
  "valid_bytes h b = load h (data b) (unat (len b))"

text \<open>The memory behind a buffer is live and at least as long as its capacity.\<close>

definition backed :: "heap \<Rightarrow> KVDBData \<Rightarrow> bool" where
  "backed h b =
     (case data b of None \<Rightarrow> capacity b = 0
      | Some a \<Rightarrow> (case region_at h a of None \<Rightarrow> False
                   | Some (bs, c) \<Rightarrow> unat (capacity b) \<le> length bs))"

definition region_size :: "heap \<Rightarrow> addr option \<Rightarrow> nat option" where
  "region_size h p =
     (case p of None \<Rightarrow> None
      | Some a \<Rightarrow> (case region_at h a of None \<Rightarrow> None | Some (bs, c) \<Rightarrow> Some (length bs)))"


definition bytes_at :: "heap \<Rightarrow> addr \<Rightarrow> byte list option" where
  "bytes_at h a = map_option fst (region_at h a)"

text \<open>A shared pointer that is not null points to a live region and is counted among its
  owners.\<close>

definition owner_ok :: "heap \<Rightarrow> KVDBData \<Rightarrow> bool" where
  "owner_ok h b =
     (case m_ownedData b of None \<Rightarrow> True
      | Some a \<Rightarrow> (case region_at h a of None \<Rightarrow> False | Some (bs, c) \<Rightarrow> 0 < c))"

definition wf_buffer :: "heap \<Rightarrow> KVDBData \<Rightarrow> bool" where
  "wf_buffer h b = (length_le_capacity b \<and> backed h b \<and> owner_ok h b)"

section \<open>KvsCursor (hse_kvscursor.cpp)\<close>

subsection \<open>The native cursor of the store\<close>

text \<open>
  Modelled from the spec: the cursor functions of the HSE library
  (\<^verbatim>\<open>hse_kvs_cursor_create\<close>, \<^verbatim>\<open>_seek\<close>, \<^verbatim>\<open>_read\<close>, \<^verbatim>\<open>_destroy\<close>) are not part of the
  repository. A native cursor iterates a view: the keys of its scope with their values,
  in iteration order (ascending for a forward cursor, descending for a reverse one). A
  seek positions the cursor on the first key of the view that is not before the target
  and reports it (a found length of 0 when there is none; the pointer reported then is
  taken to be null, and nothing proved below depends on it); a read
  returns the key and value under the cursor and advances by one, or reports the end of
  the scope and leaves the outputs alone. Keys are byte strings ordered as
  \<^verbatim>\<open>memcmp\<close> orders them, shorter prefix first. Each call also has an error code
  \<^verbatim>\<open>hse_err_t\<close>, which the caller of the model supplies; a call that fails changes
  nothing.
\<close>

type_synonym key = "byte list"

record hse_kvs_cursor =
  view :: "(key \<times> byte list) list"
  rev_flag :: bool
  pos :: nat

definition before :: "bool \<Rightarrow> key \<Rightarrow> key \<Rightarrow> bool" where
  "before bw k target = (if bw then target < k else k < target)"

definition view_ok :: "bool \<Rightarrow> (key \<times> byte list) list \<Rightarrow> bool" where
  "view_ok bw v = (sorted_wrt (\<lambda>a b. before bw a b) (map fst v) \<and> [] \<notin> set (map fst v))"

definition hse_kvs_cursor_seek ::
  "hse_kvs_cursor \<Rightarrow> key \<Rightarrow> hse_kvs_cursor \<times> key option \<times> nat" where
  "hse_kvs_cursor_seek cur target =
     (let i = length (takeWhile (\<lambda>kv. before (rev_flag cur) (fst kv) target) (view cur)) in
      if i < length (view cur)
      then (cur\<lparr>pos := i\<rparr>, Some (fst (view cur ! i)), length (fst (view cur ! i)))
      else (cur\<lparr>pos := i\<rparr>, None, 0))"

definition hse_kvs_cursor_read ::
  "hse_kvs_cursor \<Rightarrow> hse_kvs_cursor \<times> (key \<times> byte list) option" where
  "hse_kvs_cursor_read cur =
     (if pos cur < length (view cur)
      then (cur\<lparr>pos := Suc (pos cur)\<rparr>, Some (view cur ! pos cur))
      else (cur, None))"

subsection \<open>Status::getErrno\<close>

text \<open>\<^verbatim>\<open>hse_err_to_errno\<close> belongs to the HSE library; it is the parameter \<open>to_errno\<close> of
  everything that reads an errno.\<close>

definition getErrno :: "(ulong \<Rightarrow> int) \<Rightarrow> Status \<Rightarrow> int" where
  "getErrno to_errno st = (if err st \<noteq> 0 then to_errno (err st) else 0)"

definition EAGAIN :: int where
  "EAGAIN = 11"

subsection \<open>Cursor creation with retries\<close>

definition RETRY_FIB_SEQ_EAGAIN :: "nat list" where
  "RETRY_FIB_SEQ_EAGAIN = [1, 2, 3, 5, 8, 13]"

definition FIB_LEN :: nat where
  "FIB_LEN = 6"

definition INT_MAX :: nat where
  "INT_MAX = 2 ^ 31 - 1"

text \<open>What a run of the creation loop does that can be seen from outside: a warning in
  the log (with the number of retries it reports), a call of \<^verbatim>\<open>hse_kvs_cursor_create\<close>,
  a sleep of so many milliseconds.\<close>

datatype cursor_event = Warning nat | CursorCreate | Sleep nat

text \<open>The loop of \<^verbatim>\<open>_kvs_cursor_create\<close> runs until the store answers something other
  than EAGAIN. The answers of the store are the list \<open>answers\<close>, one per call; when the
  list is used up the loop is still retrying. \<^verbatim>\<open>retries\<close> is an \<^verbatim>\<open>int\<close>: it is never
  negative, and incrementing it at \<^verbatim>\<open>INT_MAX\<close> is undefined behaviour.\<close>

datatype create_result =
    Created "cursor_event list"
  | KVDBException "cursor_event list"
  | StillRetrying "cursor_event list"
  | SignedOverflow "cursor_event list"

definition sleepTime_of :: "nat \<Rightarrow> nat" where
  "sleepTime_of retries =
     (if retries < FIB_LEN then RETRY_FIB_SEQ_EAGAIN ! (retries mod FIB_LEN)
      else RETRY_FIB_SEQ_EAGAIN ! (FIB_LEN - 1))"

definition warning_of :: "nat \<Rightarrow> cursor_event list" where
  "warning_of retries =
     (if retries < FIB_LEN then [] else if retries mod 20 = 0 then [Warning retries] else [])"

fun create_loop :: "(ulong \<Rightarrow> int) \<Rightarrow> nat \<Rightarrow> ulong list \<Rightarrow> cursor_event list \<Rightarrow> create_result" where
  "create_loop to_errno retries [] log = StillRetrying log"
| "create_loop to_errno retries (a # answers) log =
     (let sleepTime = sleepTime_of retries;
          log1 = log @ warning_of retries @ [CursorCreate];
          st = Status a
      in if ok st then Created log1
         else if getErrno to_errno st \<noteq> EAGAIN then KVDBException log1
         else if retries = INT_MAX then SignedOverflow (log1 @ [Sleep sleepTime])
         else create_loop to_errno (retries + 1) answers (log1 @ [Sleep sleepTime]))"

definition kvs_cursor_create_loop :: "(ulong \<Rightarrow> int) \<Rightarrow> ulong list \<Rightarrow> create_result" where
  "kvs_cursor_create_loop to_errno answers = create_loop to_errno 0 answers []"




subsection \<open>The cursor object\<close>

text \<open>The members of \<^verbatim>\<open>KvsCursor\<close> that the operations below use. The pointers
  \<^verbatim>\<open>_kvs_key\<close>, \<^verbatim>\<open>_kvs_seek_key\<close> and \<^verbatim>\<open>_kvs_val\<close> point into the native cursor; each
  is represented by the bytes it points to (\<open>None\<close> for a null pointer), with its length
  beside it as in the source. \<open>readCounter\<close> is \<^verbatim>\<open>_hseKvsCursorReadCounter\<close>, the
  statistic that counts the calls of \<^verbatim>\<open>hse_kvs_cursor_read\<close>; it belongs to the process
  and is carried with the one cursor here.\<close>

record KvsCursor =
  c_forward :: bool
  c_cursor :: hse_kvs_cursor
  c_kvs_key :: "key option"
  c_kvs_klen :: nat
  c_kvs_seek_key :: "key option"
  c_kvs_seek_klen :: nat
  c_kvs_val :: "byte list option"
  c_kvs_vlen :: nat
  readCounter :: nat

text \<open>What the store answers during one call: the error codes of the creation attempts,
  the view a cursor created now iterates, and the error codes of a seek and of a read.\<close>

record store_answers =
  create_errs :: "ulong list"
  new_view :: "(key \<times> byte list) list"
  seek_err :: ulong
  read_err :: ulong

text \<open>\<^verbatim>\<open>_read_kvs\<close> returns the errno of the read and sets the end-of-scope flag. When the
  read fails the flag the library leaves is not determined; the model reports
  \<open>False\<close>.\<close>

definition read_kvs :: "(ulong \<Rightarrow> int) \<Rightarrow> ulong \<Rightarrow> KvsCursor \<Rightarrow> int \<times> bool \<times> KvsCursor" where
  "read_kvs to_errno rerr c =
     (let c1 = c\<lparr>c_kvs_seek_key := None, c_kvs_seek_klen := 0,
                 readCounter := Suc (readCounter c)\<rparr>;
          st = Status rerr
      in if \<not> ok st then (getErrno to_errno st, False, c1)
         else (case hse_kvs_cursor_read (c_cursor c1) of
                 (cur, None) \<Rightarrow> (getErrno to_errno st, True, c1\<lparr>c_cursor := cur\<rparr>)
               | (cur, Some (k, v)) \<Rightarrow>
                   (getErrno to_errno st, False,
                    c1\<lparr>c_cursor := cur, c_kvs_key := Some k, c_kvs_klen := length k,
                       c_kvs_val := Some v, c_kvs_vlen := length v\<rparr>)))"

text \<open>\<^verbatim>\<open>read\<close> hands out the key and the value as borrowed buffers; the model hands out
  the bytes. The result is the status, the end-of-scope flag, the key and value (when set)
  and the cursor.\<close>

definition read ::
  "(ulong \<Rightarrow> int) \<Rightarrow> ulong \<Rightarrow> KvsCursor \<Rightarrow> int \<times> bool \<times> (key \<times> byte list) option \<times> KvsCursor" where
  "read to_errno rerr c =
     (case read_kvs to_errno rerr c of
        (ret, eof, c1) \<Rightarrow>
          if ret \<noteq> 0 then (ret, eof, None, c1)
          else if \<not> eof
          then (0, eof, Some (take (c_kvs_klen c1) (case c_kvs_key c1 of None \<Rightarrow> [] | Some k \<Rightarrow> k),
                              take (c_kvs_vlen c1) (case c_kvs_val c1 of None \<Rightarrow> [] | Some v \<Rightarrow> v)), c1)
          else (0, eof, None, c1))"

definition seek :: "ulong \<Rightarrow> key \<Rightarrow> KvsCursor \<Rightarrow> Status \<times> key option \<times> KvsCursor" where
  "seek serr target c =
     (let st = Status serr in
      if \<not> ok st then (st, None, c)
      else (case hse_kvs_cursor_seek (c_cursor c) target of
              (cur, found, flen) \<Rightarrow>
                (st, Some (take flen (case found of None \<Rightarrow> [] | Some k \<Rightarrow> k)),
                 c\<lparr>c_cursor := cur, c_kvs_seek_key := found, c_kvs_seek_klen := flen\<rparr>)))"

text \<open>\<^verbatim>\<open>update\<close> copies the key to seek to into an owned buffer before it destroys the
  native cursor: \<open>seekKey_of\<close> is that copy, \<^verbatim>\<open>KVDBData(skey, (int)sklen, true)\<close>. Reading
  more bytes than the pointer has, or a length that does not fit an \<^verbatim>\<open>int\<close>, is a
  fault.\<close>

definition seekKey_of :: "key option \<Rightarrow> nat \<Rightarrow> fault + key" where
  "seekKey_of skey sklen =
     (if 2 ^ 31 \<le> sklen then Inl MemoryFault
      else if sklen = 0 then Inr []
      else case skey of None \<Rightarrow> Inl MemoryFault
           | Some k \<Rightarrow> if sklen \<le> length k then Inr (take sklen k) else Inl MemoryFault)"

text \<open>\<^verbatim>\<open>0 == memcmp(a, p, n)\<close> for a buffer \<open>a\<close> and a pointer into the native cursor:
  comparing no bytes finds no difference.\<close>

definition memcmp_eq :: "key \<Rightarrow> key option \<Rightarrow> nat \<Rightarrow> bool" where
  "memcmp_eq a p n = (n = 0 \<or> (case p of None \<Rightarrow> False | Some k \<Rightarrow> take n a = take n k))"

datatype update_result =
    Updated Status KvsCursor "cursor_event list"
  | UpdateThrows "cursor_event list"
  | UpdateBlocked "cursor_event list"
  | UpdateFault

definition update :: "(ulong \<Rightarrow> int) \<Rightarrow> store_answers \<Rightarrow> KvsCursor \<Rightarrow> update_result" where
  "update to_errno ans c =
     (let lastOpWasRead = (c_kvs_seek_key c = None \<and> c_kvs_key c \<noteq> None);
          skey = (if c_kvs_seek_key c \<noteq> None then c_kvs_seek_key c else c_kvs_key c);
          sklen = (if c_kvs_seek_klen c \<noteq> 0 then c_kvs_seek_klen c else c_kvs_klen c)
      in case seekKey_of skey sklen of
           Inl e \<Rightarrow> UpdateFault
         | Inr seekKey \<Rightarrow>
            (case kvs_cursor_create_loop to_errno (create_errs ans) of
               KVDBException log \<Rightarrow> UpdateThrows log
             | StillRetrying log \<Rightarrow> UpdateBlocked log
             | SignedOverflow log \<Rightarrow> UpdateFault
             | Created log \<Rightarrow>
                (let c1 = c\<lparr>c_cursor := \<lparr>view = new_view ans, rev_flag = \<not> c_forward c, pos = 0\<rparr>\<rparr>;
                     st = Status (seek_err ans)
                 in if \<not> ok st then Updated st c1 log
                    else (case hse_kvs_cursor_seek (c_cursor c1) seekKey of
                            (cur, found, flen) \<Rightarrow>
                              (let c2 = c1\<lparr>c_cursor := cur, c_kvs_seek_key := found,
                                           c_kvs_seek_klen := flen\<rparr>
                               in if lastOpWasRead \<and> length seekKey = c_kvs_seek_klen c2 \<and>
                                     memcmp_eq seekKey (c_kvs_seek_key c2) (c_kvs_seek_klen c2)
                                  then (case read_kvs to_errno (read_err ans) c2 of
                                          (ret, eof, c3) \<Rightarrow> Updated st c3 log)
                                  else Updated st c2 log)))))"



text \<open>Up to \<open>n\<close> reads one after the other, until the end of the scope: the keys and
  values they return.\<close>

fun read_keys :: "(ulong \<Rightarrow> int) \<Rightarrow> nat \<Rightarrow> KvsCursor \<Rightarrow> (key \<times> byte list) list" where
  "read_keys to_errno 0 c = []"
| "read_keys to_errno (Suc n) c =
     (case read to_errno 0 c of
        (ret, eof, Some kv, c1) \<Rightarrow> kv # read_keys to_errno n c1
      | (ret, eof, None, c1) \<Rightarrow> [])"

subsection \<open>A store of five keys\<close>

text \<open>The keys \<open>[1]\<close> to \<open>[5]\<close> with the values \<open>[11]\<close> to \<open>[15]\<close>; the same store after
  key \<open>[3]\<close> was deleted; answers of a store that creates a cursor at once and fails no
  call; and a forward cursor over the five keys that has read \<open>[1]\<close> and \<open>[2]\<close>.\<close>

definition five_keys :: "(key \<times> byte list) list" where
  "five_keys = [([1], [11]), ([2], [12]), ([3], [13]), ([4], [14]), ([5], [15])]"

definition four_keys :: "(key \<times> byte list) list" where
  "four_keys = [([1], [11]), ([2], [12]), ([4], [14]), ([5], [15])]"

definition willing :: "(key \<times> byte list) list \<Rightarrow> store_answers" where
  "willing v = \<lparr>create_errs = [0], new_view = v, seek_err = 0, read_err = 0\<rparr>"

definition cursor_at_2 :: KvsCursor where
  "cursor_at_2 =
     \<lparr>c_forward = True,
      c_cursor = \<lparr>view = five_keys, rev_flag = False, pos = 2\<rparr>,
      c_kvs_key = Some [2], c_kvs_klen = 1, c_kvs_seek_key = None, c_kvs_seek_klen = 0,
      c_kvs_val = Some [12], c_kvs_vlen = 1, readCounter = 2\<rparr>"

definition cursor_at_3 :: KvsCursor where
  "cursor_at_3 =
     \<lparr>c_forward = True,
      c_cursor = \<lparr>view = five_keys, rev_flag = False, pos = 3\<rparr>,
      c_kvs_key = Some [3], c_kvs_klen = 1, c_kvs_seek_key = None, c_kvs_seek_klen = 0,
      c_kvs_val = Some [13], c_kvs_vlen = 1, readCounter = 3\<rparr>"

definition cursor_sought_3 :: KvsCursor where
  "cursor_sought_3 =
     \<lparr>c_forward = True,
      c_cursor = \<lparr>view = five_keys, rev_flag = False, pos = 2\<rparr>,
      c_kvs_key = Some [2], c_kvs_klen = 1, c_kvs_seek_key = Some [3], c_kvs_seek_klen = 1,
      c_kvs_val = Some [12], c_kvs_vlen = 1, readCounter = 2\<rparr>"




section \<open>KVDBDurabilityManager and KVDBJournalFlusher (hse_durability_manager.cpp)\<close>

text \<open>
  The manager calls into three collaborators: the journal listener, the oplog visibility
  manager and the store. Each call can return or raise; what each does during one
  \<^verbatim>\<open>sync()\<close> is given by a \<open>sync_env\<close>. An exception is a \<^verbatim>\<open>UserException\<close> with its
  error code, or anything else.
\<close>

datatype ErrorCodes = ShutdownInProgress | OtherCode nat

datatype exn = UserException ErrorCodes | OtherException

type_synonym Token = nat
type_synonym int64 = "64 word"

record sync_env =
  getToken_r :: "exn + Token"
  getCommitBoundary_r :: "exn + int64"
  kvdb_sync_r :: ulong
  durableCallback_r :: "exn option"
  onDurable_r :: "exn option"

text \<open>The calls a \<^verbatim>\<open>sync()\<close> makes, in the order it makes them (a call that raises is
  the last one); \<open>DurableCallback\<close> carries its argument, the variable \<^verbatim>\<open>newBound\<close>.
  \<^verbatim>\<open>newBound\<close> has no initialiser: its value is \<open>None\<close> until the result of
  \<^verbatim>\<open>getCommitBoundary()\<close> is assigned to it.\<close>

datatype event =
    GetToken
  | GetCommitBoundary
  | KvdbSync
  | DurableCallback "int64 option"
  | NotifyAll
  | OnDurable Token

text \<open>
  Modelled from the spec: the class declarations (\<^verbatim>\<open>hse_durability_manager.h\<close>) and the
  macros \<^verbatim>\<open>invariantHseSt\<close> and \<^verbatim>\<open>invariantHse\<close> (\<^verbatim>\<open>hse_util.h\<close>) are not among the
  sources. The sync counter \<^verbatim>\<open>_numSyncs\<close> and the waiter counter \<^verbatim>\<open>_numWaits\<close> are
  natural numbers; a failed invariant aborts the process.
\<close>

record KVDBJournalFlusher =
  flushPending :: bool
  flusherShuttingDown :: bool

record KVDBDurabilityManager =
  numSyncs :: nat
  forceLag :: int
  durable :: bool
  oplogVisibilityManager :: "nat option"
  journalListener :: nat
  numWaits :: nat
  shuttingDown :: bool
  journalFlusher :: "KVDBJournalFlusher option"
  oplogMutex :: bool

text \<open>\<open>oplogMutex\<close> says that \<^verbatim>\<open>_oplogMutex\<close> is held. \<^verbatim>\<open>sync()\<close> takes it with a bare
  \<^verbatim>\<open>lock()\<close> and gives it up with a bare \<^verbatim>\<open>unlock()\<close>, so a call that raises in between
  leaves it held; the other mutexes are taken by guards, which release them however the
  call ends. The calls below run one after the other: the mutex is held when a call starts
  only if an earlier call left it so, and a call that takes it then never returns.

  How a call ends: it returns, it raises, the process is aborted, or the call hangs on
  \<^verbatim>\<open>_oplogMutex\<close>.\<close>

datatype 'a outcome = Returned 'a | Threw exn 'a | Aborted | Hangs

definition NoOpJournalListener :: nat where
  "NoOpJournalListener = 0"

definition KVDBJournalFlusher_ctor :: KVDBJournalFlusher where
  "KVDBJournalFlusher_ctor = \<lparr>flushPending = False, flusherShuttingDown = False\<rparr>"

definition KVDBDurabilityManager_ctor :: "bool \<Rightarrow> int \<Rightarrow> KVDBDurabilityManager" where
  "KVDBDurabilityManager_ctor dur lag =
     \<lparr>numSyncs = 0, forceLag = lag, durable = dur, oplogVisibilityManager = None,
      journalListener = NoOpJournalListener, numWaits = 0, shuttingDown = False,
      journalFlusher = (if dur then Some KVDBJournalFlusher_ctor else None),
      oplogMutex = False\<rparr>"

definition setJournalListener :: "nat \<Rightarrow> KVDBDurabilityManager \<Rightarrow> KVDBDurabilityManager" where
  "setJournalListener jl d = d\<lparr>journalListener := jl\<rparr>"

text \<open>\<^verbatim>\<open>setOplogVisibilityManager\<close> holds \<^verbatim>\<open>_oplogMutex\<close> through a guard while it
  assigns.\<close>

definition setOplogVisibilityManager ::
  "nat option \<Rightarrow> KVDBDurabilityManager \<Rightarrow> KVDBDurabilityManager outcome" where
  "setOplogVisibilityManager kcvm d =
     (if oplogMutex d then Hangs
      else if kcvm \<noteq> None then Returned (d\<lparr>oplogVisibilityManager := kcvm\<rparr>)
      else Returned (d\<lparr>oplogVisibilityManager := None\<rparr>))"

text \<open>\<^verbatim>\<open>sync()\<close>, one call running alone (it holds \<^verbatim>\<open>_journalListenerMutex\<close> from its
  first statement to its last, so calls do not overlap). It takes \<^verbatim>\<open>_oplogMutex\<close> after
  the token and gives it up after the callback. The result is the calls made and how the
  call ended, with the manager as the call leaves it.\<close>

definition sync ::
  "sync_env \<Rightarrow> KVDBDurabilityManager \<Rightarrow> event list \<times> KVDBDurabilityManager outcome" where
  "sync env d =
     (if \<not> durable d then ([], Returned d)
      else case getToken_r env of
        Inl e \<Rightarrow> ([GetToken], Threw e d)
      | Inr token \<Rightarrow>
         if oplogMutex d then ([GetToken], Hangs)
         else
          (let d0 = d\<lparr>oplogMutex := True\<rparr> in
           case (if oplogVisibilityManager d0 \<noteq> None
                 then (case getCommitBoundary_r env of
                         Inl e \<Rightarrow> Inl e
                       | Inr b \<Rightarrow> Inr ([GetToken, GetCommitBoundary], Some b))
                 else Inr ([GetToken], None)) of
             Inl e \<Rightarrow> ([GetToken, GetCommitBoundary], Threw e d0)
           | Inr (tr1, newBound) \<Rightarrow>
              (let tr2 = tr1 @ [KvdbSync] in
               if \<not> ok (Status (kvdb_sync_r env)) then (tr2, Aborted)
               else case (if oplogVisibilityManager d0 \<noteq> None
                          then (case durableCallback_r env of
                                  Some e \<Rightarrow> Inl (tr2 @ [DurableCallback newBound], e)
                                | None \<Rightarrow> Inr (tr2 @ [DurableCallback newBound]))
                          else Inr tr2) of
                      Inl (tr3, e) \<Rightarrow> (tr3, Threw e d0)
                    | Inr tr3 \<Rightarrow>
                       (let d1 = d0\<lparr>oplogMutex := False\<rparr>;
                            d2 = d1\<lparr>numSyncs := numSyncs d1 + 1\<rparr>;
                            tr4 = tr3 @ [NotifyAll, OnDurable token]
                        in case onDurable_r env of
                             Some e \<Rightarrow> (tr4, Threw e d2)
                           | None \<Rightarrow> (tr4, Returned d2)))))"

text \<open>\<^verbatim>\<open>notifyFlusher\<close> sets the pending flag of the flusher.\<close>

definition notifyFlusher :: "KVDBJournalFlusher \<Rightarrow> KVDBJournalFlusher" where
  "notifyFlusher f = f\<lparr>flushPending := True\<rparr>"

text \<open>\<^verbatim>\<open>cv.wait(lk, pred)\<close> is \<^verbatim>\<open>while (!pred()) wait(lk);\<close>: the predicate is tested at
  once and after every wake-up. The waiting thread sees the shared state at those
  moments: \<open>seen\<close> lists what it sees, first at the call and then at each wake-up. The
  result is the number of wake-ups before the wait returned, or \<open>None\<close> when the wait has
  not returned after all of \<open>seen\<close>.\<close>

fun cv_wait :: "('s \<Rightarrow> bool) \<Rightarrow> 's list \<Rightarrow> nat option" where
  "cv_wait pred [] = None"
| "cv_wait pred (s # seen) =
     (if pred s then Some 0 else map_option Suc (cv_wait pred seen))"

text \<open>\<^verbatim>\<open>waitUntilDurable()\<close>. The shared state the waiter sees is the pair of
  \<^verbatim>\<open>_numSyncs\<close> and \<^verbatim>\<open>_shuttingDown\<close>; \<open>wakeups\<close> lists it at each wake-up after the
  call. The call returns after so many wake-ups, or is still blocked after all of them, or
  finds no flusher to notify (a null \<^verbatim>\<open>_journalFlusher\<close>, after
  \<^verbatim>\<open>prepareForShutdown\<close>). The manager is as the call leaves it, with \<^verbatim>\<open>_numWaits\<close>
  counted down again when the call has returned.\<close>

datatype wait_result = Waited nat | Blocked | NullFlusher

definition waitUntilDurable ::
  "(nat \<times> bool) list \<Rightarrow> KVDBDurabilityManager \<Rightarrow> wait_result \<times> KVDBDurabilityManager" where
  "waitUntilDurable wakeups d =
     (let d1 = d\<lparr>numWaits := numWaits d + 1\<rparr> in
      if \<not> durable d1 then (Waited 0, d1\<lparr>numWaits := numWaits d1 - 1\<rparr>)
      else
        (let waitFor = numSyncs d1 + 1 in
         case journalFlusher d1 of
           None \<Rightarrow> (NullFlusher, d1)
         | Some f \<Rightarrow>
            (let d2 = d1\<lparr>journalFlusher := Some (notifyFlusher f)\<rparr> in
             case cv_wait (\<lambda>s. fst s > waitFor \<or> snd s) ((numSyncs d2, shuttingDown d2) # wakeups) of
               None \<Rightarrow> (Blocked, d2)
             | Some k \<Rightarrow> (Waited k, d2\<lparr>numWaits := numWaits d2 - 1\<rparr>))))"

text \<open>\<^verbatim>\<open>prepareForShutdown()\<close>: a last sync, the shutdown flag, then polling until no
  waiter is left (\<open>waits_seen\<close> lists \<^verbatim>\<open>_numWaits\<close> at each poll; \<open>None\<close>: still polling),
  then the flusher is shut down and released.\<close>

definition prepareForShutdown ::
  "sync_env \<Rightarrow> nat list \<Rightarrow> KVDBDurabilityManager \<Rightarrow>
     event list \<times> KVDBDurabilityManager option outcome" where
  "prepareForShutdown env waits_seen d =
     (case sync env d of
        (tr, Aborted) \<Rightarrow> (tr, Aborted)
      | (tr, Hangs) \<Rightarrow> (tr, Hangs)
      | (tr, Threw e d1) \<Rightarrow> (tr, Threw e (Some d1))
      | (tr, Returned d1) \<Rightarrow>
         (let d2 = d1\<lparr>shuttingDown := True\<rparr> in
          case cv_wait (\<lambda>n. n = 0) waits_seen of
            None \<Rightarrow> (tr @ [NotifyAll], Returned None)
          | Some k \<Rightarrow> (tr @ [NotifyAll], Returned (Some (d2\<lparr>journalFlusher := None\<rparr>)))))"

text \<open>The body of the flusher's loop in \<^verbatim>\<open>run()\<close> after its wait: the \<^verbatim>\<open>try\<close> block
  around \<^verbatim>\<open>_durabilityManager.sync()\<close> with its handler. The loop goes on, the process
  is aborted, an exception leaves \<^verbatim>\<open>run()\<close>, or the worker hangs in \<^verbatim>\<open>sync()\<close>.\<close>

datatype worker_step =
    Continue KVDBDurabilityManager
  | WorkerAborted
  | Uncaught exn
  | WorkerHangs

definition run_try :: "sync_env \<Rightarrow> KVDBDurabilityManager \<Rightarrow> event list \<times> worker_step" where
  "run_try env d =
     (case sync env d of
        (tr, Returned d1) \<Rightarrow> (tr, Continue d1)
      | (tr, Aborted) \<Rightarrow> (tr, WorkerAborted)
      | (tr, Hangs) \<Rightarrow> (tr, WorkerHangs)
      | (tr, Threw (UserException c) d1) \<Rightarrow>
          (if c = ShutdownInProgress then (tr, Continue d1) else (tr, WorkerAborted))
      | (tr, Threw OtherException d1) \<Rightarrow> (tr, Uncaught OtherException))"

text \<open>The loop of \<^verbatim>\<open>run()\<close>: each round tests the shutdown flag, waits when the commit
  interval has not passed yet (for a notification, the shutdown or the rest of the
  interval) and clears the pending flag, tests the shutdown flag again and syncs. Time is
  not modelled: a round is given by the flag at its two tests, by whether it waited and by
  what the collaborators do; when the rounds are used up the worker is still running.\<close>

datatype run_result =
    Stopped KVDBDurabilityManager
  | StillRunning KVDBDurabilityManager
  | RunAborted
  | RunUncaught exn
  | RunHangs

definition clear_pending :: "bool \<Rightarrow> KVDBDurabilityManager \<Rightarrow> KVDBDurabilityManager" where
  "clear_pending waited d =
     (if waited
      then d\<lparr>journalFlusher := map_option (\<lambda>f. f\<lparr>flushPending := False\<rparr>) (journalFlusher d)\<rparr>
      else d)"

fun run :: "(bool \<times> bool \<times> bool \<times> sync_env) list \<Rightarrow> KVDBDurabilityManager \<Rightarrow> run_result" where
  "run [] d = StillRunning d"
| "run ((sd1, waited, sd2, env) # rounds) d =
     (if sd1 then Stopped d
      else if sd2 then Stopped (clear_pending waited d)
      else case snd (run_try env (clear_pending waited d)) of
             Continue d1 \<Rightarrow> run rounds d1
           | WorkerAborted \<Rightarrow> RunAborted
           | Uncaught e \<Rightarrow> RunUncaught e
           | WorkerHangs \<Rightarrow> RunHangs)"

text \<open>
  Modelled from the spec: \<^verbatim>\<open>BackgroundJob\<close>, which runs \<^verbatim>\<open>run()\<close> on a thread of its own
  after \<^verbatim>\<open>go()\<close>, belongs to the server and is not among the sources. As the
  specification has it, an unexpected error that leaves the worker is fatal: the process
  ends. The job stops, is still running, hangs, or the process is aborted.
\<close>

datatype job_result =
    JobStopped KVDBDurabilityManager
  | JobRunning KVDBDurabilityManager
  | JobHangs
  | ProcessAborted

definition jobBody ::
  "(bool \<times> bool \<times> bool \<times> sync_env) list \<Rightarrow> KVDBDurabilityManager \<Rightarrow> job_result" where
  "jobBody rounds d =
     (case run rounds d of
        Stopped d1 \<Rightarrow> JobStopped d1
      | StillRunning d1 \<Rightarrow> JobRunning d1
      | RunAborted \<Rightarrow> ProcessAborted
      | RunUncaught e \<Rightarrow> ProcessAborted
      | RunHangs \<Rightarrow> JobHangs)"

text \<open>Calls of \<^verbatim>\<open>sync()\<close> one after the other.\<close>

fun sync_seq :: "sync_env list \<Rightarrow> KVDBDurabilityManager \<Rightarrow> KVDBDurabilityManager outcome" where
  "sync_seq [] d = Returned d"
| "sync_seq (env # envs) d =
     (case snd (sync env d) of
        Returned d1 \<Rightarrow> sync_seq envs d1
      | Threw e d1 \<Rightarrow> Threw e d1
      | Aborted \<Rightarrow> Aborted
      | Hangs \<Rightarrow> Hangs)"

text \<open>Reading a list of calls: the arguments of the calls of \<^verbatim>\<open>durableCallback\<close>, and the
  calls made before the first of them.\<close>

definition is_callback :: "event \<Rightarrow> bool" where
  "is_callback e = (case e of DurableCallback x \<Rightarrow> True | _ \<Rightarrow> False)"

definition callback_args :: "event list \<Rightarrow> int64 option list" where
  "callback_args tr = concat (map (\<lambda>e. case e of DurableCallback x \<Rightarrow> [x] | _ \<Rightarrow> []) tr)"

definition before_callback :: "event list \<Rightarrow> event list" where
  "before_callback tr = takeWhile (\<lambda>e. \<not> is_callback e) tr"

text \<open>Collaborators that all return: the listener hands out token \<open>t\<close>, the visibility
  manager reports the boundary \<open>b\<close>, the store syncs.\<close>

definition calm_env :: "Token \<Rightarrow> int64 \<Rightarrow> sync_env" where
  "calm_env t b =
     \<lparr>getToken_r = Inr t, getCommitBoundary_r = Inr b, kvdb_sync_r = 0,
      durableCallback_r = None, onDurable_r = None\<rparr>"

section \<open>KVDBEngine::initOplogStoreThread (hse_record_store_mongod.cpp)\<close>

text \<open>The file-level state: the set \<^verbatim>\<open>_backgroundThreadNamespaces\<close>, and the background
  jobs started so far (each \<^verbatim>\<open>new KVDBOplogStoreThread(nss)\<close> followed by \<^verbatim>\<open>go()\<close>), in
  the order they were started. \<^verbatim>\<open>NamespaceString::oplog\<close> belongs to the server: it is
  the parameter \<open>oplog\<close>; \<^verbatim>\<open>storageGlobalParams.repair\<close> is read at each call.\<close>

record oplog_threads =
  backgroundThreadNamespaces :: "string set"
  started :: "string list"

definition oplog_threads_init :: oplog_threads where
  "oplog_threads_init = \<lparr>backgroundThreadNamespaces = {}, started = []\<rparr>"

definition initOplogStoreThread ::
  "(string \<Rightarrow> bool) \<Rightarrow> bool \<Rightarrow> string \<Rightarrow> oplog_threads \<Rightarrow> bool \<times> oplog_threads" where
  "initOplogStoreThread oplog repair ns st =
     (if \<not> oplog ns then (False, st)
      else if repair then (False, st)
      else if ns \<in> backgroundThreadNamespaces st then (True, st)
      else (True, st\<lparr>started := started st @ [ns],
                     backgroundThreadNamespaces := insert ns (backgroundThreadNamespaces st)\<rparr>))"

text \<open>A sequence of calls, each with the repair flag it finds and its namespace; the
  result is the values returned and the state left.\<close>

fun init_calls ::
  "(string \<Rightarrow> bool) \<Rightarrow> (bool \<times> string) list \<Rightarrow> oplog_threads \<Rightarrow> bool list \<times> oplog_threads" where
  "init_calls oplog [] st = ([], st)"
| "init_calls oplog ((repair, ns) # calls) st =
     (case initOplogStoreThread oplog repair ns st of
        (r, st1) \<Rightarrow> (case init_calls oplog calls st1 of (rs, st2) \<Rightarrow> (r # rs, st2)))"

section \<open>Buffers: facts about memory\<close>

lemma word_room:
  fixes l c n :: ulong
  assumes "l \<le> c" "n \<le> c - l"
  shows "unat (l + n) = unat l + unat n" and "l + n \<le> c"
proof -
  have a: "unat (c - l) = unat c - unat l" using assms(1) by (simp add: unat_sub)
  have b: "unat l \<le> unat c" using assms(1) by (simp add: word_le_nat_alt)
  have c: "unat n \<le> unat c - unat l" using assms(2) a by (simp add: word_le_nat_alt)
  have d: "unat l + unat n \<le> unat c" using b c by arith
  have e: "unat c < 2 ^ 64" using unsigned_less [of c] by simp
  show f: "unat (l + n) = unat l + unat n"
    using d e by (simp add: unat_add_lem [THEN iffD1])
  show "l + n \<le> c" using d f by (simp add: word_le_nat_alt)
qed

lemma region_at_update:
  "region_at (h[a := r]) a' = (if a' = a \<and> a < length h then r else region_at h a')"
  by (simp add: region_at_def)

lemma region_at_Some_less: "region_at h a = Some r \<Longrightarrow> a < length h"
  by (simp add: region_at_def split: if_splits)

lemma store_region:
  assumes "region_at h a = Some (bs, c)" "off + length src \<le> length bs"
  shows "\<exists>h'. store h (Some a) off src = Inr h' \<and>
           region_at h' a = Some (take off bs @ src @ drop (off + length src) bs, c) \<and>
           length h' = length h \<and> (\<forall>a'. a' \<noteq> a \<longrightarrow> region_at h' a' = region_at h a')"
proof (cases "src = []")
  case True
  then show ?thesis using assms by (simp add: store_def)
next
  case False
  then show ?thesis
    using assms region_at_Some_less [OF assms(1)]
    by (simp add: store_def region_at_update)
qed

lemma load_region:
  "region_at h a = Some (bs, c) \<Longrightarrow> n \<le> length bs \<Longrightarrow> load h (Some a) n = Inr (take n bs)"
  by (simp add: load_def)

lemma region_at_nth: "region_at h a = Some r \<Longrightarrow> h ! a = Some r"
  by (simp add: region_at_def split: if_splits)

lemma region_at_append_left: "a < length h \<Longrightarrow> region_at (h @ xs) a = region_at h a"
  by (simp add: region_at_def nth_append)

lemma region_at_append_new: "region_at (h @ [x]) (length h) = x"
  by (simp add: region_at_def)

lemma sp_acquire_region:
  "region_at h a = Some (bs, c) \<Longrightarrow> sp_acquire (Some a) h = h[a := Some (bs, Suc c)]"
  by (simp add: sp_acquire_def)

lemma sp_release_region:
  "region_at h a = Some (bs, Suc (Suc c)) \<Longrightarrow> sp_release (Some a) h = h[a := Some (bs, Suc c)]"
  by (simp add: sp_release_def)

lemma sp_acquire_new:
  "sp_acquire (Some (length h)) (h @ [Some (bs, c)]) = h @ [Some (bs, Suc c)]"
  by (simp add: sp_acquire_def region_at_def)

lemma sp_release_new:
  "sp_release (Some (length h)) (h @ [Some (bs, Suc (Suc c))]) = h @ [Some (bs, Suc c)]"
  by (simp add: sp_release_def region_at_def)

lemma length_sp_acquire: "length (sp_acquire p h) = length h"
  by (simp add: sp_acquire_def split: option.splits)

lemma bytes_at_sp_acquire: "bytes_at (sp_acquire p h) a = bytes_at h a"
  by (auto simp: sp_acquire_def bytes_at_def region_at_def nth_list_update split: option.splits)

lemma sp_release_acquire_append:
  assumes "owner_ok h b"
  shows "sp_release (m_ownedData b) (sp_acquire (m_ownedData b) h @ [x]) = h @ [x]"
proof (cases "m_ownedData b")
  case None
  then show ?thesis by (simp add: sp_acquire_def sp_release_def)
next
  case (Some a)
  then obtain bs c where reg: "region_at h a = Some (bs, Suc c)"
    using assms by (auto simp: owner_ok_def split: option.splits elim: lessE)
  have lt: "a < length h" using region_at_Some_less [OF reg] .
  have a1: "sp_acquire (Some a) h = h[a := Some (bs, Suc (Suc c))]"
    using sp_acquire_region [OF reg] .
  have "region_at (h[a := Some (bs, Suc (Suc c))] @ [x]) a = Some (bs, Suc (Suc c))"
    using lt by (simp add: region_at_def nth_append)
  from sp_release_region [OF this]
  have "sp_release (Some a) (h[a := Some (bs, Suc (Suc c))] @ [x]) =
        (h[a := Some (bs, Suc (Suc c))] @ [x])[a := Some (bs, Suc c)]" .
  also have "\<dots> = h[a := Some (bs, Suc c)] @ [x]"
    using lt by (simp add: list_update_append)
  also have "h[a := Some (bs, Suc c)] = h"
    using region_at_nth [OF reg] list_update_id [of h a] by simp
  finally show ?thesis using Some a1 by simp
qed

lemma store_new:
  assumes "length vb \<le> cap"
  shows "store (h @ [Some (replicate cap 0, 0)]) (Some (length h)) 0 vb =
         Inr (h @ [Some (vb @ replicate (cap - length vb) 0, 0)])"
proof (cases "vb = []")
  case True
  then show ?thesis by (simp add: store_def)
next
  case False
  then show ?thesis using assms by (simp add: store_def region_at_def)
qed

lemma clone_of_owned:
  assumes own: "m_owned b" and ok: "owner_ok h b"
  shows "clone b h = Inr (b, sp_acquire (m_ownedData b) h)"
proof (cases "m_ownedData b")
  case None
  then show ?thesis using own
    by (simp add: clone_def copy_ctor_def makeOwned_def dtor_def sp_acquire_def sp_release_def)
next
  case (Some a)
  then obtain bs c where reg: "region_at h a = Some (bs, Suc c)"
    using ok by (auto simp: owner_ok_def split: option.splits elim: lessE)
  have lt: "a < length h" using region_at_Some_less [OF reg] .
  let ?h1 = "h[a := Some (bs, Suc (Suc c))]"
  let ?h2 = "h[a := Some (bs, Suc (Suc (Suc c)))]"
  have a1: "sp_acquire (Some a) h = ?h1" using sp_acquire_region [OF reg] .
  have r1: "region_at ?h1 a = Some (bs, Suc (Suc c))" using lt by (simp add: region_at_def)
  have a2: "sp_acquire (Some a) ?h1 = ?h2" using sp_acquire_region [OF r1] by simp
  have r2: "region_at ?h2 a = Some (bs, Suc (Suc (Suc c)))" using lt by (simp add: region_at_def)
  have a3: "sp_release (Some a) ?h2 = ?h1" using sp_release_region [OF r2] by simp
  show ?thesis using own Some a1 a2 a3
    by (simp add: clone_def copy_ctor_def makeOwned_def dtor_def)
qed

lemma clone_of_borrowed:
  assumes bor: "\<not> m_owned b" and inv: "length_le_capacity b" and mem: "backed h b"
    and ok: "owner_ok h b"
  shows "\<exists>vb. valid_bytes h b = Inr vb \<and>
     clone b h =
       Inr (b\<lparr>m_allocLen := m_bufLen b, m_ownedData := Some (length h), m_owned := True\<rparr>,
            h @ [Some (vb @ replicate (unat (m_bufLen b) - unat (m_len b)) 0, 1)])"
proof -
  let ?n = "unat (m_len b)" and ?cap = "unat (m_bufLen b)"
  have le: "?n \<le> ?cap"
    using inv bor by (simp add: length_le_capacity_def capacity_def word_le_nat_alt)
  obtain vb where vb: "valid_bytes h b = Inr vb" and lvb: "length vb = ?n"
    and ld: "\<And>h'. length h' = length h \<Longrightarrow> (\<forall>a. bytes_at h' a = bytes_at h a) \<Longrightarrow>
                load (h' @ [Some (replicate ?cap 0, 0)]) (m_data b) ?n = Inr vb"
  proof (cases "?n = 0")
    case True
    then show ?thesis using that [of "[]"] bor by (simp add: valid_bytes_def len_def load_def)
  next
    case False
    then obtain a bs c where d: "m_data b = Some a" and reg: "region_at h a = Some (bs, c)"
      and big: "?cap \<le> length bs"
      using mem bor le
      by (auto simp: backed_def data_def capacity_def split: option.splits)
    have lt: "a < length h" using region_at_Some_less [OF reg] .
    have "\<And>h'. length h' = length h \<Longrightarrow> (\<forall>a. bytes_at h' a = bytes_at h a) \<Longrightarrow>
                load (h' @ [Some (replicate ?cap 0, 0)]) (m_data b) ?n = Inr (take ?n bs)"
    proof -
      fix h' :: heap
      assume len: "length h' = length h" and same: "\<forall>a. bytes_at h' a = bytes_at h a"
      have "bytes_at h' a = Some bs" using same reg by (simp add: bytes_at_def)
      then obtain c' where "region_at h' a = Some (bs, c')" by (auto simp: bytes_at_def)
      then have "region_at (h' @ [Some (replicate ?cap 0, 0)]) a = Some (bs, c')"
        using lt len by (simp add: region_at_append_left)
      then show "load (h' @ [Some (replicate ?cap 0, 0)]) (m_data b) ?n = Inr (take ?n bs)"
        using d le big False by (simp add: load_def)
    qed
    then show ?thesis
      using that [of "take ?n bs"] d reg bor le big False
      by (simp add: valid_bytes_def len_def load_def data_def)
  qed
  let ?h1 = "sp_acquire (m_ownedData b) h"
  let ?C = "vb @ replicate (?cap - ?n) 0"
  have l1: "length ?h1 = length h" by (rule length_sp_acquire)
  have ld1: "load (?h1 @ [Some (replicate ?cap 0, 0)]) (m_data b) ?n = Inr vb"
    using ld [OF l1] by (simp add: bytes_at_sp_acquire)
  have st: "store (?h1 @ [Some (replicate ?cap 0, 0)]) (Some (length h)) 0 vb =
      Inr (?h1 @ [Some (?C, 0)])"
    using store_new [of vb ?cap ?h1] le lvb l1 by simp
  have mc: "memcpy (?h1 @ [Some (replicate ?cap 0, 0)]) (Some (length h)) 0 (m_data b) ?n =
      Inr (?h1 @ [Some (?C, 0)])"
    using ld1 st by (simp add: memcpy_def)
  have rs: "sp_reset (m_ownedData b) (length h) (?h1 @ [Some (?C, 0)]) = h @ [Some (?C, 1)]"
    using sp_release_acquire_append [OF ok] sp_acquire_new [of h ?C 0]
    by (simp add: sp_reset_def)
  have cc: "sp_acquire (Some (length h)) (h @ [Some (?C, 1)]) = h @ [Some (?C, 2)]"
    using sp_acquire_new [of h ?C 1] by (simp add: numeral_2_eq_2)
  have dd: "sp_release (Some (length h)) (h @ [Some (?C, 2)]) = h @ [Some (?C, 1)]"
    using sp_release_new [of h ?C 0] by (simp add: numeral_2_eq_2)
  have "clone b h =
       Inr (b\<lparr>m_allocLen := m_bufLen b, m_ownedData := Some (length h), m_owned := True\<rparr>,
            h @ [Some (?C, 1)])"
    using bor l1 mc rs cc dd
    by (simp add: clone_def copy_ctor_def makeOwned_def new_array_def dtor_def Let_def)
  then show ?thesis using vb by blast
qed


lemma load_cong_bytes:
  assumes "\<And>a. bytes_at h' a = bytes_at h a"
  shows "load h' p n = load h p n"
proof (cases p)
  case None
  then show ?thesis by (simp add: load_def)
next
  case (Some a)
  have "map_option fst (region_at h' a) = map_option fst (region_at h a)"
    using assms [of a] by (simp add: bytes_at_def)
  then show ?thesis using Some
    by (cases "region_at h a"; cases "region_at h' a") (auto simp: load_def)
qed

lemma valid_bytes_defined:
  assumes "length_le_capacity b" "backed h b"
  shows "\<exists>vb. valid_bytes h b = Inr vb \<and> length vb = unat (len b)"
proof (cases "unat (m_len b) = 0")
  case True
  then show ?thesis by (simp add: valid_bytes_def len_def load_def)
next
  case False
  have le: "unat (m_len b) \<le> unat (capacity b)"
    using assms(1) by (simp add: length_le_capacity_def word_le_nat_alt)
  then have "capacity b \<noteq> 0" using False by auto
  then obtain a bs c where "data b = Some a" "region_at h a = Some (bs, c)"
      "unat (capacity b) \<le> length bs"
    using assms(2) by (auto simp: backed_def split: option.splits)
  then show ?thesis using le False by (simp add: valid_bytes_def len_def load_def)
qed


section \<open>Buffers: appending within the capacity\<close>

text \<open>
  Claim C5, as amended. Let \<open>b\<close> be a buffer whose length is at most its capacity \<open>c\<close>
  (\<^verbatim>\<open>_allocLen\<close> when it is owned, \<^verbatim>\<open>_bufLen\<close> when it is not), over memory that is at
  least as long as the capacity, and let \<open>str\<close> hold at least \<open>n\<close> readable bytes. Then \<^verbatim>\<open>copy(str, n)\<close> returns, and it succeeds if and only if \<open>n \<le> c - l\<close>. On
  success the status is ok, the new length is \<open>l + n\<close> (without wrap-around), the valid
  bytes are the old valid bytes followed by the first \<open>n\<close> bytes of \<open>str\<close>, and the
  capacity, the data pointer and the size of the region behind it are what they were.
  On failure the status is \<^verbatim>\<open>EMSGSIZE\<close> and the buffer and the memory are unchanged.
\<close>

theorem copy_capacity:
  assumes inv: "length_le_capacity b" and mem: "backed h b" and src: "unat n \<le> length str"
  shows "case copy str n b h of
           Inl e \<Rightarrow> False
         | Inr (st, b', h') \<Rightarrow>
             if n \<le> capacity b - len b
             then ok st \<and> len b' = len b + n \<and> unat (len b') = unat (len b) + unat n \<and>
                  capacity b' = capacity b \<and> data b' = data b \<and>
                  region_size h' (data b') = region_size h (data b) \<and>
                  (\<exists>old. valid_bytes h b = Inr old \<and>
                         valid_bytes h' b' = Inr (old @ take (unat n) str))
             else st = Status EMSGSIZE \<and> \<not> ok st \<and> b' = b \<and> h' = h"
proof (cases "n \<le> capacity b - len b")
  case False
  then show ?thesis
    by (auto simp: copy_def capacity_def len_def ok_def EMSGSIZE_def)
next
  case True
  let ?l = "m_len b" and ?c = "capacity b" and ?src = "take (unat n) str"
  have lc: "?l \<le> ?c" using inv by (simp add: length_le_capacity_def)
  have room: "n \<le> ?c - ?l" using True by (simp add: len_def)
  have sum: "unat (?l + n) = unat ?l + unat n" and le: "?l + n \<le> ?c"
    using word_room [OF lc room] by simp_all
  have fits: "unat ?l + unat n \<le> unat ?c" using le sum by (simp add: word_le_nat_alt)
  have lsrc: "length ?src = unat n" using src by simp
  have cp: "copy str n b h =
      (case store h (data b) (unat ?l) ?src of Inl e \<Rightarrow> Inl e
       | Inr h' \<Rightarrow> Inr (Status 0, adjustLen n b, h'))"
    using room src by (auto simp: copy_def capacity_def data_def memcpy_arg_def)
  have fields: "len (adjustLen n b) = len b + n" "capacity (adjustLen n b) = ?c"
      "data (adjustLen n b) = data b"
    by (simp_all add: adjustLen_def len_def capacity_def data_def)
  show ?thesis
  proof (cases "data b")
    case None
    then have "?c = 0" using mem by (simp add: backed_def)
    then have "unat n = 0" "unat ?l = 0" using fits by simp_all
    then show ?thesis
      using True cp None fields sum
      by (simp add: store_def ok_def valid_bytes_def load_def len_def)
  next
    case (Some a)
    then obtain bs c where reg: "region_at h a = Some (bs, c)" and big: "unat ?c \<le> length bs"
      using mem by (auto simp: backed_def split: option.splits)
    have "unat ?l + length ?src \<le> length bs" using fits big lsrc by simp
    from store_region [OF reg this] obtain h' where
      st: "store h (Some a) (unat ?l) ?src = Inr h'" and
      reg': "region_at h' a = Some (take (unat ?l) bs @ ?src @ drop (unat ?l + length ?src) bs, c)"
      by blast
    have old: "valid_bytes h b = Inr (take (unat ?l) bs)"
      using Some reg fits big by (simp add: valid_bytes_def len_def load_region)
    have tk: "take (unat ?l + unat n)
          (take (unat ?l) bs @ ?src @ drop (unat ?l + length ?src) bs) = take (unat ?l) bs @ ?src"
      using fits big lsrc by simp
    have "load h' (Some a) (unat ?l + unat n) =
        Inr (take (unat ?l + unat n) (take (unat ?l) bs @ ?src @ drop (unat ?l + length ?src) bs))"
      using fits big lsrc by (intro load_region [OF reg']) simp
    then have ld: "load h' (Some a) (unat ?l + unat n) = Inr (take (unat ?l) bs @ ?src)"
      by (simp only: tk)
    have new: "valid_bytes h' (adjustLen n b) = Inr (take (unat ?l) bs @ ?src)"
      using ld Some sum fields(3) by (simp add: valid_bytes_def len_def adjustLen_def)
    have size: "region_size h' (data b) = region_size h (data b)"
      using Some reg reg' fits big lsrc by (simp add: region_size_def)
    show ?thesis
      using True cp Some st old new size fields sum
      by (simp add: ok_def len_def)
  qed
qed

text \<open>Claim C5 as amended, at a concrete buffer: a read buffer of capacity 4 over the region
  \<open>[97, 98, 99, 100]\<close> takes two bytes, and then refuses three more.\<close>

theorem copy_capacity_witness:
  "length_le_capacity (setReadBuf (Some 0) 4 KVDBData_default) \<and>
   backed [Some ([97, 98, 99, 100], 0)] (setReadBuf (Some 0) 4 KVDBData_default) \<and>
   (case copy [1, 2, 3] 2 (setReadBuf (Some 0) 4 KVDBData_default) [Some ([97, 98, 99, 100], 0)] of
      Inl e \<Rightarrow> False
    | Inr (st, b', h') \<Rightarrow>
        ok st \<and> len b' = 2 \<and> valid_bytes h' b' = Inr [1, 2] \<and>
        length_le_capacity b' \<and> backed h' b' \<and>
        (case copy [1, 2, 3] 3 b' h' of
           Inl e \<Rightarrow> False
         | Inr (st2, b2, h2) \<Rightarrow> st2 = Status EMSGSIZE \<and> b2 = b' \<and> h2 = h'))"
proof -
  let ?b = "setReadBuf (Some 0) 4 KVDBData_default"
  let ?h = "[Some ([97, 98, 99, 100], 0)] :: heap"
  let ?b' = "adjustLen 2 ?b"
  let ?h' = "[Some ([1, 2, 99, 100], 0)] :: heap"
  have i1: "length_le_capacity ?b"
    by (simp add: length_le_capacity_def capacity_def setReadBuf_def KVDBData_default_def)
  have m1: "backed ?h ?b"
    by (simp add: backed_def capacity_def data_def region_at_def setReadBuf_def
        KVDBData_default_def)
  have s1: "unat (2 :: ulong) \<le> length [1, 2, 3 :: byte]" by simp
  have c1: "copy [1, 2, 3] 2 ?b ?h = Inr (Status 0, ?b', ?h')"
    by (simp add: copy_def memcpy_arg_def store_def region_at_def setReadBuf_def
        KVDBData_default_def)
  have i2: "length_le_capacity ?b'"
    by (simp add: length_le_capacity_def capacity_def adjustLen_def setReadBuf_def
        KVDBData_default_def)
  have m2: "backed ?h' ?b'"
    by (simp add: backed_def capacity_def data_def region_at_def adjustLen_def setReadBuf_def
        KVDBData_default_def)
  have s2: "unat (3 :: ulong) \<le> length [1, 2, 3 :: byte]" by simp
  have r2: "\<not> (3 :: ulong) \<le> capacity ?b' - len ?b'"
    by (simp add: capacity_def len_def adjustLen_def setReadBuf_def KVDBData_default_def)
  have v1: "valid_bytes ?h ?b = Inr []"
    by (simp add: valid_bytes_def load_def len_def setReadBuf_def KVDBData_default_def)
  have l1: "len ?b = 0" "(2 :: ulong) \<le> capacity ?b - len ?b"
    by (simp_all add: capacity_def len_def setReadBuf_def KVDBData_default_def)
  show ?thesis
    using i1 m1 i2 m2 c1 l1 v1 r2 copy_capacity [OF i1 m1 s1] copy_capacity [OF i2 m2 s2]
    by (auto split: sum.splits)
qed

text \<open>
  Claim C5 as stated, for every buffer, fails: \<^verbatim>\<open>adjustLen\<close> adds to the length without
  looking at the capacity, and \<^verbatim>\<open>copy\<close> computes the room left as an unsigned difference.
  A read buffer of capacity 1 over a region of four bytes, after \<^verbatim>\<open>adjustLen(2)\<close>, has
  length 2: no room is left, yet \<^verbatim>\<open>1 - 2\<close> wraps around, \<^verbatim>\<open>copy\<close> of one byte returns ok
  and writes behind the capacity, and the length becomes 3.
\<close>

theorem copy_capacity_counterexample:
  "capacity (adjustLen 2 (setReadBuf (Some 0) 1 KVDBData_default)) = 1 \<and>
   len (adjustLen 2 (setReadBuf (Some 0) 1 KVDBData_default)) = 2 \<and>
   \<not> length_le_capacity (adjustLen 2 (setReadBuf (Some 0) 1 KVDBData_default)) \<and>
   copy [7] 1 (adjustLen 2 (setReadBuf (Some 0) 1 KVDBData_default))
     [Some ([97, 98, 99, 100], 0)] =
     Inr (Status 0, adjustLen 3 (setReadBuf (Some 0) 1 KVDBData_default),
          [Some ([97, 98, 7, 100], 0)]) \<and>
   ok (Status 0) \<and>
   len (adjustLen 3 (setReadBuf (Some 0) 1 KVDBData_default)) = 3 \<and>
   capacity (adjustLen 3 (setReadBuf (Some 0) 1 KVDBData_default)) = 1"
proof -
  let ?b = "adjustLen 2 (setReadBuf (Some 0) 1 KVDBData_default)"
  let ?b' = "adjustLen 3 (setReadBuf (Some 0) 1 KVDBData_default)"
  have over: "\<not> length_le_capacity ?b"
    by (simp add: setReadBuf_def adjustLen_def KVDBData_default_def capacity_def
        length_le_capacity_def word_le_nat_alt)
  have cp: "copy [7] 1 ?b [Some ([97, 98, 99, 100], 0)] =
      Inr (Status 0, ?b', [Some ([97, 98, 7, 100], 0)])"
    by (simp add: copy_def memcpy_arg_def store_def region_at_def setReadBuf_def adjustLen_def
        KVDBData_default_def)
  have fields: "capacity ?b = 1" "len ?b = 2" "ok (Status 0)" "len ?b' = 3" "capacity ?b' = 1"
    by (simp_all add: setReadBuf_def adjustLen_def KVDBData_default_def capacity_def len_def
        ok_def)
  show ?thesis using over cp fields by simp
qed


section \<open>Buffers: cloning\<close>

text \<open>
  Claim C6, as amended. Let \<open>b\<close> be a well-formed buffer: its length is at most its
  capacity, the memory behind it is live and at least as long as the capacity, and its
  shared pointer, when not null, owns a live region. Then \<^verbatim>\<open>clone()\<close> returns a buffer that
  is owned and has the valid bytes of \<open>b\<close>. When \<open>b\<close> is borrowed, the data of the clone is
  a new allocation: an address that was not in use, different from the data of \<open>b\<close>, and
  the memory that existed before is unchanged. When \<open>b\<close> is owned, the clone has the data
  pointer of \<open>b\<close>: \<^verbatim>\<open>makeOwned()\<close> does nothing to an owned buffer, so the clone shares the
  allocation through the shared pointer, and nothing is allocated.
\<close>

theorem clone_owned_or_shared:
  assumes wf: "wf_buffer h b"
  shows "case clone b h of
           Inl e \<Rightarrow> False
         | Inr (r, h') \<Rightarrow>
             m_owned r \<and> len r = len b \<and> valid_bytes h' r = valid_bytes h b \<and>
             (\<exists>vb. valid_bytes h b = Inr vb) \<and>
             (if m_owned b
              then data r = data b \<and> length h' = length h
              else data r = Some (length h) \<and> data r \<noteq> data b \<and>
                   length h' = Suc (length h) \<and> take (length h) h' = h)"
proof -
  have inv: "length_le_capacity b" and mem: "backed h b" and own: "owner_ok h b"
    using wf by (simp_all add: wf_buffer_def)
  from valid_bytes_defined [OF inv mem] obtain vb where
    vb: "valid_bytes h b = Inr vb" and lvb: "length vb = unat (len b)" by blast
  show ?thesis
  proof (cases "m_owned b")
    case True
    have cl: "clone b h = Inr (b, sp_acquire (m_ownedData b) h)"
      using clone_of_owned [OF True own] .
    have "valid_bytes (sp_acquire (m_ownedData b) h) b = valid_bytes h b"
      unfolding valid_bytes_def by (rule load_cong_bytes) (rule bytes_at_sp_acquire)
    then show ?thesis using True cl vb by (simp add: length_sp_acquire)
  next
    case False
    from clone_of_borrowed [OF False inv mem own] obtain vb' where
      vb': "valid_bytes h b = Inr vb'" and
      cl: "clone b h =
        Inr (b\<lparr>m_allocLen := m_bufLen b, m_ownedData := Some (length h), m_owned := True\<rparr>,
             h @ [Some (vb' @ replicate (unat (m_bufLen b) - unat (m_len b)) 0, 1)])"
      by blast
    have same: "vb' = vb" using vb vb' by simp
    let ?r = "b\<lparr>m_allocLen := m_bufLen b, m_ownedData := Some (length h), m_owned := True\<rparr>"
    let ?h' = "h @ [Some (vb @ replicate (unat (m_bufLen b) - unat (m_len b)) 0, 1)]"
    have new: "valid_bytes ?h' ?r = Inr vb"
      using lvb by (auto simp: valid_bytes_def data_def len_def load_def region_at_def)
    have other: "data b \<noteq> Some (length h)"
    proof
      assume "data b = Some (length h)"
      then show False using mem by (simp add: backed_def region_at_def)
    qed
    show ?thesis
      using False cl same vb new other by (simp add: data_def len_def)
  qed
qed


text \<open>Claim C6 as amended, at a concrete buffer: the clone of a view of two bytes.\<close>

theorem clone_owned_or_shared_witness:
  "wf_buffer [Some ([97, 98], 0)] (KVDBData_str (Some 0) 2) \<and>
   (case clone (KVDBData_str (Some 0) 2) [Some ([97, 98], 0)] of
      Inl e \<Rightarrow> False
    | Inr (r, h') \<Rightarrow>
        m_owned r \<and> data r = Some 1 \<and> valid_bytes h' r = Inr [97, 98] \<and>
        take 1 h' = [Some ([97, 98], 0)])"
proof -
  have wf: "wf_buffer [Some ([97, 98], 0)] (KVDBData_str (Some 0) 2)"
    by (simp add: wf_buffer_def length_le_capacity_def backed_def owner_ok_def capacity_def
        data_def region_at_def KVDBData_str_def KVDBData_default_def)
  have vb: "valid_bytes [Some ([97, 98], 0)] (KVDBData_str (Some 0) 2) = Inr [97, 98]"
    by (simp add: valid_bytes_def load_def data_def len_def region_at_def KVDBData_str_def
        KVDBData_default_def)
  show ?thesis
    using wf vb clone_owned_or_shared [OF wf]
    by (auto simp: KVDBData_str_def KVDBData_default_def split: sum.splits)
qed


text \<open>
  Claim C6 as stated fails for an owned buffer. \<^verbatim>\<open>createOwned(4)\<close> on a default buffer
  gives an owned buffer \<open>b\<close> of length 0; its clone \<open>c\<close> has the same data pointer. Two bytes
  appended to \<open>c\<close> are its valid bytes \<open>[1, 2]\<close>; two bytes appended to \<open>b\<close> afterwards
  land in the same memory, and the valid bytes of \<open>c\<close> are \<open>[9, 9]\<close>.
\<close>

theorem clone_shares_owned_counterexample:
  "case createOwned 4 KVDBData_default [] of
     (tmp, b, h0) \<Rightarrow>
       (case clone b (dtor tmp h0) of
          Inl e \<Rightarrow> False
        | Inr (c, h1) \<Rightarrow>
            m_owned b \<and> wf_buffer (dtor tmp h0) b \<and> data c = data b \<and>
            (case copy [1, 2] 2 c h1 of
               Inl e \<Rightarrow> False
             | Inr (st, c', h2) \<Rightarrow>
                 valid_bytes h2 c' = Inr [1, 2] \<and>
                 (case copy [9, 9] 2 b h2 of
                    Inl e \<Rightarrow> False
                  | Inr (st', b', h3) \<Rightarrow> valid_bytes h3 c' = Inr [9, 9])))"
  by (simp add: createOwned_def new_array_def sp_reset_def sp_acquire_def sp_release_def
      copy_ctor_def dtor_def clone_def makeOwned_def copy_def memcpy_arg_def store_def
      adjustLen_def valid_bytes_def load_def data_def len_def region_at_def
      KVDBData_default_def wf_buffer_def length_le_capacity_def backed_def owner_ok_def
      capacity_def Let_def)

section \<open>Buffers: the length never exceeds the capacity\<close>

lemma inv_default: "length_le_capacity KVDBData_default"
  by (simp add: length_le_capacity_def capacity_def KVDBData_default_def)

lemma inv_str: "length_le_capacity (KVDBData_str p l)"
  by (simp add: length_le_capacity_def capacity_def KVDBData_str_def KVDBData_default_def)

lemma inv_string: "length_le_capacity (KVDBData_string p l)"
  by (simp add: length_le_capacity_def capacity_def KVDBData_string_def KVDBData_default_def)

lemma inv_const_cStr: "KVDBData_const_cStr p h = Inr (b, h') \<Longrightarrow> length_le_capacity b"
  by (auto simp: KVDBData_const_cStr_def Let_def inv_string split: sum.splits)

lemma inv_mem: "KVDBData_mem p l own h = Inr (b, h') \<Longrightarrow> length_le_capacity b"
  by (auto simp: KVDBData_mem_def createOwned_def new_array_def copy_ctor_def Let_def
      length_le_capacity_def capacity_def KVDBData_default_def split: sum.splits if_splits)

lemma inv_createOwned:
  "createOwned l b h = (r, b', h') \<Longrightarrow> length_le_capacity r \<and> length_le_capacity b'"
  by (auto simp: createOwned_def new_array_def copy_ctor_def Let_def
      length_le_capacity_def capacity_def)

lemma inv_setReadBuf: "length_le_capacity (setReadBuf p l b)"
  by (simp add: setReadBuf_def length_le_capacity_def capacity_def)

lemma inv_destroy: "destroy b h = (b', h') \<Longrightarrow> length_le_capacity b'"
  by (auto simp: destroy_def length_le_capacity_def capacity_def)

lemma inv_adjustLen:
  "length_le_capacity b \<Longrightarrow> n \<le> capacity b - m_len b \<Longrightarrow> length_le_capacity (adjustLen n b)"
proof -
  assume "length_le_capacity b" and "n \<le> capacity b - m_len b"
  then have "m_len b + n \<le> capacity b"
    using word_room(2) [of "m_len b" "capacity b" n] by (simp add: length_le_capacity_def)
  moreover have "capacity (adjustLen n b) = capacity b" "m_len (adjustLen n b) = m_len b + n"
    by (simp_all add: adjustLen_def capacity_def)
  ultimately show ?thesis by (simp add: length_le_capacity_def)
qed

lemma inv_copy:
  assumes "length_le_capacity b" "copy str n b h = Inr (st, b', h')"
  shows "length_le_capacity b'"
proof (cases "n \<le> capacity b - m_len b")
  case True
  then have "b' = adjustLen n b"
    using assms(2) by (auto simp: copy_def capacity_def split: if_splits sum.splits)
  then show ?thesis using inv_adjustLen [OF assms(1) True] by simp
next
  case False
  then have "b' = b"
    using assms(2) by (auto simp: copy_def capacity_def split: if_splits sum.splits)
  then show ?thesis using assms(1) by simp
qed

lemma inv_makeOwned:
  assumes "length_le_capacity b" "makeOwned b h = Inr (r, b', h')"
  shows "length_le_capacity r \<and> length_le_capacity b'"
  using assms
  by (auto simp: makeOwned_def new_array_def copy_ctor_def Let_def
      length_le_capacity_def capacity_def split: sum.splits if_splits)

lemma inv_clone:
  assumes "length_le_capacity b" "clone b h = Inr (r, h')"
  shows "length_le_capacity r"
proof -
  obtain t' h2 where "makeOwned b (sp_acquire (m_ownedData b) h) = Inr (r, t', h2)"
    using assms(2) by (auto simp: clone_def copy_ctor_def split: sum.splits)
  then show ?thesis using inv_makeOwned [OF assms(1)] by blast
qed

text \<open>
  Claim C7, as amended. The default constructor, the constructors from a pointer and a
  length, from a string, from a \<^verbatim>\<open>const uint8_t*\<close> and from memory with an ownership flag
  establish \<open>length \<le> capacity\<close>; so do \<^verbatim>\<open>createOwned\<close>, \<^verbatim>\<open>setReadBuf\<close> and
  \<^verbatim>\<open>destroy\<close>, whatever the buffer was. \<^verbatim>\<open>copy\<close>, \<^verbatim>\<open>makeOwned\<close> and \<^verbatim>\<open>clone\<close> preserve
  it. \<^verbatim>\<open>adjustLen(n)\<close> preserves it when \<open>n \<le> capacity - length\<close>.
\<close>

theorem invariant_kept:
  "length_le_capacity KVDBData_default \<and>
   length_le_capacity (KVDBData_str p l) \<and>
   length_le_capacity (KVDBData_string p l) \<and>
   (case KVDBData_const_cStr p h of Inl e \<Rightarrow> True | Inr (b', h') \<Rightarrow> length_le_capacity b') \<and>
   (case KVDBData_mem p l own h of Inl e \<Rightarrow> True | Inr (b', h') \<Rightarrow> length_le_capacity b') \<and>
   (case createOwned l b h of (r, b', h') \<Rightarrow> length_le_capacity r \<and> length_le_capacity b') \<and>
   length_le_capacity (setReadBuf p l b) \<and>
   length_le_capacity (fst (destroy b h)) \<and>
   (length_le_capacity b \<longrightarrow>
      (case copy str n b h of Inl e \<Rightarrow> True | Inr (st, b', h') \<Rightarrow> length_le_capacity b') \<and>
      (case makeOwned b h of
         Inl e \<Rightarrow> True
       | Inr (r, b', h') \<Rightarrow> length_le_capacity r \<and> length_le_capacity b') \<and>
      (case clone b h of Inl e \<Rightarrow> True | Inr (r, h') \<Rightarrow> length_le_capacity r) \<and>
      (n \<le> capacity b - m_len b \<longrightarrow> length_le_capacity (adjustLen n b)))"
proof -
  have c1: "case KVDBData_const_cStr p h of Inl e \<Rightarrow> True | Inr (b', h') \<Rightarrow> length_le_capacity b'"
    using inv_const_cStr by (auto split: sum.splits)
  have c2: "case KVDBData_mem p l own h of Inl e \<Rightarrow> True | Inr (b', h') \<Rightarrow> length_le_capacity b'"
    using inv_mem by (auto split: sum.splits)
  have c3: "case createOwned l b h of (r, b', h') \<Rightarrow> length_le_capacity r \<and> length_le_capacity b'"
    using inv_createOwned by (auto split: prod.splits)
  have c4: "length_le_capacity (fst (destroy b h))"
    using inv_destroy [of b h] by (cases "destroy b h") simp
  have c5: "case copy str n b h of Inl e \<Rightarrow> True | Inr (st, b', h') \<Rightarrow> length_le_capacity b'"
    if "length_le_capacity b"
    using inv_copy [OF that] by (auto split: sum.splits)
  have c6: "case makeOwned b h of Inl e \<Rightarrow> True
            | Inr (r, b', h') \<Rightarrow> length_le_capacity r \<and> length_le_capacity b'"
    if "length_le_capacity b"
    using inv_makeOwned [OF that] by (auto split: sum.splits)
  have c7: "case clone b h of Inl e \<Rightarrow> True | Inr (r, h') \<Rightarrow> length_le_capacity r"
    if "length_le_capacity b"
    using inv_clone [OF that] by (auto split: sum.splits)
  show ?thesis
    using inv_default inv_str inv_string inv_setReadBuf c1 c2 c3 c4 c5 c6 c7 inv_adjustLen
    by blast
qed

text \<open>Claim C7 as amended, at a concrete buffer: a read buffer of capacity 4 keeps the
  invariant through an append of two bytes, \<^verbatim>\<open>makeOwned\<close>, \<^verbatim>\<open>clone\<close> and
  \<^verbatim>\<open>adjustLen(2)\<close>, and the constructor from memory establishes it.\<close>

theorem invariant_kept_witness:
  "length_le_capacity (setReadBuf (Some 0) 4 KVDBData_default) \<and>
   (\<exists>st b' h'. copy [1, 2, 3] 2 (setReadBuf (Some 0) 4 KVDBData_default)
                   [Some ([97, 98, 99, 100], 0)] = Inr (st, b', h') \<and> length_le_capacity b') \<and>
   (\<exists>r b' h'. makeOwned (setReadBuf (Some 0) 4 KVDBData_default)
                   [Some ([97, 98, 99, 100], 0)] = Inr (r, b', h') \<and>
               length_le_capacity r \<and> length_le_capacity b') \<and>
   (\<exists>r h'. clone (setReadBuf (Some 0) 4 KVDBData_default)
                   [Some ([97, 98, 99, 100], 0)] = Inr (r, h') \<and> length_le_capacity r) \<and>
   (\<exists>b' h'. KVDBData_mem (Some 0) 4 True [Some ([97, 98, 99, 100], 0)] = Inr (b', h') \<and>
             length_le_capacity b') \<and>
   (2 :: ulong) \<le> capacity (setReadBuf (Some 0) 4 KVDBData_default) -
                  m_len (setReadBuf (Some 0) 4 KVDBData_default) \<and>
   length_le_capacity (adjustLen 2 (setReadBuf (Some 0) 4 KVDBData_default))"
proof -
  let ?b = "setReadBuf (Some 0) 4 KVDBData_default"
  let ?h = "[Some ([97, 98, 99, 100], 0)] :: heap"
  have i: "length_le_capacity ?b"
    by (simp add: length_le_capacity_def capacity_def setReadBuf_def KVDBData_default_def)
  have r: "(2 :: ulong) \<le> capacity ?b - m_len ?b"
    by (simp add: capacity_def setReadBuf_def KVDBData_default_def)
  have e1: "\<exists>x. copy [1, 2, 3] 2 ?b ?h = Inr x"
    by (simp add: copy_def memcpy_arg_def store_def region_at_def setReadBuf_def
        KVDBData_default_def)
  have e2: "\<exists>x. makeOwned ?b ?h = Inr x"
    by (simp add: makeOwned_def new_array_def memcpy_def load_def store_def region_at_def
        sp_reset_def sp_acquire_def sp_release_def copy_ctor_def setReadBuf_def
        KVDBData_default_def Let_def)
  have e3: "\<exists>x. clone ?b ?h = Inr x"
    by (simp add: clone_def makeOwned_def new_array_def memcpy_def load_def store_def
        region_at_def sp_reset_def sp_acquire_def sp_release_def copy_ctor_def dtor_def
        setReadBuf_def KVDBData_default_def Let_def)
  have e4: "\<exists>x. KVDBData_mem (Some 0) 4 True ?h = Inr x"
    by (simp add: KVDBData_mem_def createOwned_def new_array_def memcpy_def load_def store_def
        region_at_def sp_reset_def sp_acquire_def sp_release_def copy_ctor_def dtor_def
        KVDBData_default_def Let_def)
  show ?thesis
    using i r e1 e2 e3 e4
      invariant_kept [where p = "Some 0" and l = 4 and h = ?h and own = True
        and b = ?b and str = "[1, 2, 3]" and n = 2]
    by (auto split: sum.splits)
qed

text \<open>
  Claim C7 as stated fails. \<^verbatim>\<open>adjustLen\<close> adds to the length without a test: on a default
  buffer, which satisfies the invariant, \<^verbatim>\<open>adjustLen(1)\<close> gives length 1 and capacity 0.
  The constructor from a \<^verbatim>\<open>uint8_t*\<close> C string sets the length to \<^verbatim>\<open>strlen + 1\<close> and
  leaves the capacity at 0: for the string \<^verbatim>\<open>"a"\<close> the length is 2.
\<close>

theorem invariant_counterexample:
  "length_le_capacity KVDBData_default \<and>
   \<not> length_le_capacity (adjustLen 1 KVDBData_default) \<and>
   (\<exists>b. KVDBData_cStr (Some 0) [Some ([97, 0], 0)] = Inr b \<and> m_len b = 2 \<and>
        capacity b = 0 \<and> \<not> length_le_capacity b)"
  by (simp add: length_le_capacity_def capacity_def adjustLen_def KVDBData_default_def
      KVDBData_cStr_def strlen_def region_at_def)

section \<open>The durability manager: facts about sync and waiting\<close>

lemma cv_wait_first:
  "cv_wait P xs =
     (if \<exists>x \<in> set xs. P x then Some (length (takeWhile (\<lambda>x. \<not> P x) xs)) else None)"
  by (induction xs) auto

lemma sync_numSyncs_Returned:
  "durable d \<Longrightarrow> snd (sync env d) = Returned d' \<Longrightarrow> numSyncs d' = numSyncs d + 1"
  by (cases "getToken_r env"; cases "getCommitBoundary_r env"; cases "durableCallback_r env";
      cases "onDurable_r env")
     (auto simp: sync_def Let_def split: if_splits)

lemma sync_durable_Returned:
  "snd (sync env d) = Returned d' \<Longrightarrow> durable d' = durable d"
  by (cases "getToken_r env"; cases "getCommitBoundary_r env"; cases "durableCallback_r env";
      cases "onDurable_r env")
     (auto simp: sync_def Let_def split: if_splits)

lemma sync_numSyncs_mono:
  "case snd (sync env d) of
     Returned d' \<Rightarrow> numSyncs d \<le> numSyncs d'
   | Threw e d' \<Rightarrow> numSyncs d \<le> numSyncs d'
   | Aborted \<Rightarrow> True
   | Hangs \<Rightarrow> True"
  by (cases "getToken_r env"; cases "getCommitBoundary_r env"; cases "durableCallback_r env";
      cases "onDurable_r env")
     (auto simp: sync_def Let_def split: if_splits)

lemma sync_seq_numSyncs:
  "durable d \<Longrightarrow> sync_seq envs d = Returned d' \<Longrightarrow> numSyncs d' = numSyncs d + length envs"
proof (induction envs arbitrary: d)
  case Nil
  then show ?case by simp
next
  case (Cons env envs)
  from Cons.prems(2) obtain d1 where s: "snd (sync env d) = Returned d1"
    and r: "sync_seq envs d1 = Returned d'"
    by (auto split: outcome.splits)
  have "durable d1" using sync_durable_Returned [OF s] Cons.prems(1) by simp
  from Cons.IH [OF this r] sync_numSyncs_Returned [OF Cons.prems(1) s]
  show ?case by simp
qed

lemma waitUntilDurable_numSyncs: "numSyncs (snd (waitUntilDurable w d)) = numSyncs d"
  by (auto simp: waitUntilDurable_def Let_def split: option.splits)

lemma prepareForShutdown_numSyncs:
  "case snd (prepareForShutdown env ws d) of
     Returned (Some d') \<Rightarrow> numSyncs d \<le> numSyncs d'
   | Threw e (Some d') \<Rightarrow> numSyncs d \<le> numSyncs d'
   | _ \<Rightarrow> True"
  using sync_numSyncs_mono [where env = env and d = d]
  by (cases "sync env d") (auto simp: prepareForShutdown_def Let_def split: outcome.splits option.splits)



section \<open>The durability manager: the boundary it publishes\<close>

text \<open>
  Claim C1. Let the manager be durable with a visibility manager registered. Whatever the
  collaborators do and whether \<^verbatim>\<open>_oplogMutex\<close> is free or not, a \<^verbatim>\<open>sync()\<close> calls
  \<^verbatim>\<open>durableCallback\<close> at most once; when it does, the argument is the value that
  \<^verbatim>\<open>getCommitBoundary()\<close> returned, the calls made before it are \<^verbatim>\<open>getToken\<close>,
  \<^verbatim>\<open>getCommitBoundary\<close> and \<^verbatim>\<open>kvdb_sync\<close> in this order, and the \<^verbatim>\<open>kvdb_sync\<close>
  succeeded. When the token and the boundary are returned, the flush succeeds and the call
  gets \<^verbatim>\<open>_oplogMutex\<close>, the callback is made with that boundary; a call that gets its
  token while \<^verbatim>\<open>_oplogMutex\<close> is held makes no further call and hangs.
\<close>

theorem sync_publishes_boundary_read_before_flush:
  assumes "durable d" and "oplogVisibilityManager d \<noteq> None"
  shows "case sync env d of
           (tr, out) \<Rightarrow>
             (callback_args tr = [] \<or>
              (\<exists>b. getCommitBoundary_r env = Inr b \<and> callback_args tr = [Some b] \<and>
                   before_callback tr = [GetToken, GetCommitBoundary, KvdbSync] \<and>
                   ok (Status (kvdb_sync_r env)))) \<and>
             (\<forall>t b. getToken_r env = Inr t \<and> getCommitBoundary_r env = Inr b \<and>
                    ok (Status (kvdb_sync_r env)) \<and> \<not> oplogMutex d \<longrightarrow>
                    callback_args tr = [Some b]) \<and>
             (\<forall>t. getToken_r env = Inr t \<and> oplogMutex d \<longrightarrow> tr = [GetToken] \<and> out = Hangs)"
  using assms
  by (cases "getToken_r env"; cases "getCommitBoundary_r env"; cases "durableCallback_r env";
      cases "onDurable_r env")
     (auto simp: sync_def callback_args_def before_callback_def is_callback_def Let_def)


text \<open>Claim C1, at a concrete manager: with the boundary 42 read before the flush, the
  callback gets 42 after the flush; with \<^verbatim>\<open>_oplogMutex\<close> held, the call hangs after
  \<^verbatim>\<open>getToken\<close>.\<close>

theorem sync_publishes_boundary_read_before_flush_witness:
  "setOplogVisibilityManager (Some 1) (KVDBDurabilityManager_ctor True 0) =
     Returned ((KVDBDurabilityManager_ctor True 0)\<lparr>oplogVisibilityManager := Some 1\<rparr>) \<and>
   durable ((KVDBDurabilityManager_ctor True 0)\<lparr>oplogVisibilityManager := Some 1\<rparr>) \<and>
   oplogVisibilityManager ((KVDBDurabilityManager_ctor True 0)\<lparr>oplogVisibilityManager := Some 1\<rparr>)
     \<noteq> None \<and>
   \<not> oplogMutex ((KVDBDurabilityManager_ctor True 0)\<lparr>oplogVisibilityManager := Some 1\<rparr>) \<and>
   callback_args (fst (sync (calm_env 7 42)
       ((KVDBDurabilityManager_ctor True 0)\<lparr>oplogVisibilityManager := Some 1\<rparr>))) = [Some 42] \<and>
   before_callback (fst (sync (calm_env 7 42)
       ((KVDBDurabilityManager_ctor True 0)\<lparr>oplogVisibilityManager := Some 1\<rparr>))) =
     [GetToken, GetCommitBoundary, KvdbSync] \<and>
   oplogMutex ((KVDBDurabilityManager_ctor True 0)
       \<lparr>oplogVisibilityManager := Some 1, oplogMutex := True\<rparr>) \<and>
   sync (calm_env 7 42) ((KVDBDurabilityManager_ctor True 0)
       \<lparr>oplogVisibilityManager := Some 1, oplogMutex := True\<rparr>) = ([GetToken], Hangs)"
proof -
  let ?k = "(KVDBDurabilityManager_ctor True 0)
       \<lparr>oplogVisibilityManager := Some 1, oplogMutex := True\<rparr>"
  have k1: "durable ?k" by (simp add: KVDBDurabilityManager_ctor_def)
  have k2: "oplogVisibilityManager ?k \<noteq> None" by simp
  have k3: "oplogMutex ?k" by simp
  have held: "sync (calm_env 7 42) ?k = ([GetToken], Hangs)"
    using k3 sync_publishes_boundary_read_before_flush [OF k1 k2, of "calm_env 7 42"]
    by (cases "sync (calm_env 7 42) ?k") (simp add: calm_env_def)
  let ?d = "(KVDBDurabilityManager_ctor True 0)\<lparr>oplogVisibilityManager := Some 1\<rparr>"
  have s: "setOplogVisibilityManager (Some 1) (KVDBDurabilityManager_ctor True 0) = Returned ?d"
    by (simp add: setOplogVisibilityManager_def KVDBDurabilityManager_ctor_def)
  have h1: "durable ?d"
    by (simp add: KVDBDurabilityManager_ctor_def)
  have h2: "oplogVisibilityManager ?d \<noteq> None"
    by simp
  have h3: "\<not> oplogMutex ?d"
    by (simp add: KVDBDurabilityManager_ctor_def)
  have e: "getToken_r (calm_env 7 42) = Inr 7" "getCommitBoundary_r (calm_env 7 42) = Inr 42"
    "ok (Status (kvdb_sync_r (calm_env 7 42)))"
    by (simp_all add: calm_env_def ok_def)
  have free: "callback_args (fst (sync (calm_env 7 42) ?d)) = [Some 42] \<and>
      before_callback (fst (sync (calm_env 7 42) ?d)) = [GetToken, GetCommitBoundary, KvdbSync]"
    using h3 e sync_publishes_boundary_read_before_flush [OF h1 h2, of "calm_env 7 42"]
    by (cases "sync (calm_env 7 42) ?d") auto
  show ?thesis
    using s h1 h2 h3 free k3 held by simp
qed


section \<open>The durability manager: waiting for a sync\<close>

text \<open>
  Claim C2, as amended. Let durability be enabled and the journal flusher be in place (the
  constructor creates it; \<^verbatim>\<open>prepareForShutdown()\<close> releases it). Then
  \<^verbatim>\<open>waitUntilDurable()\<close> records the sync counter at entry plus one and returns at the first
  moment, among the call itself and the wake-ups after it, at which the counter exceeds
  that recorded value (so at least two syncs have completed since entry) or shutdown is
  signalled; until then it stays blocked. When it returns, \<^verbatim>\<open>_numWaits\<close> is what it was.
\<close>

theorem waitUntilDurable_waits_for_second_sync:
  assumes "durable d" and "journalFlusher d = Some f"
  shows "fst (waitUntilDurable wakeups d) =
           (if \<exists>s \<in> set ((numSyncs d, shuttingDown d) # wakeups). fst s > numSyncs d + 1 \<or> snd s
            then Waited (length (takeWhile (\<lambda>s. \<not> (fst s > numSyncs d + 1 \<or> snd s))
                                  ((numSyncs d, shuttingDown d) # wakeups)))
            else Blocked) \<and>
         (fst (waitUntilDurable wakeups d) = Blocked \<or>
          numWaits (snd (waitUntilDurable wakeups d)) = numWaits d)"
proof -
  let ?P = "\<lambda>s :: nat \<times> bool. fst s > numSyncs d + 1 \<or> snd s"
  let ?seen = "(numSyncs d, shuttingDown d) # wakeups"
  show ?thesis
    using assms
    by (simp add: waitUntilDurable_def Let_def cv_wait_first del: cv_wait.simps)
qed


text \<open>Claim C2 as amended, at a fresh durable manager: the wait returns at the wake-up
  that shows two syncs, or at the wake-up that shows the shutdown flag.\<close>

theorem waitUntilDurable_waits_for_second_sync_witness:
  "durable (KVDBDurabilityManager_ctor True 0) \<and>
   journalFlusher (KVDBDurabilityManager_ctor True 0) = Some KVDBJournalFlusher_ctor \<and>
   fst (waitUntilDurable [(1, False), (2, False)] (KVDBDurabilityManager_ctor True 0)) = Waited 2 \<and>
   fst (waitUntilDurable [(0, False), (0, True)] (KVDBDurabilityManager_ctor True 0)) = Waited 2 \<and>
   numWaits (snd (waitUntilDurable [(1, False), (2, False)] (KVDBDurabilityManager_ctor True 0))) = 0"
proof -
  let ?d = "KVDBDurabilityManager_ctor True 0"
  have h1: "durable ?d" by (simp add: KVDBDurabilityManager_ctor_def)
  have h2: "journalFlusher ?d = Some KVDBJournalFlusher_ctor"
    by (simp add: KVDBDurabilityManager_ctor_def)
  have n: "numSyncs ?d = 0" "shuttingDown ?d = False" "numWaits ?d = 0"
    by (simp_all add: KVDBDurabilityManager_ctor_def)
  show ?thesis
    using h1 h2
      waitUntilDurable_waits_for_second_sync [OF h1 h2, of "[(1, False), (2, False)]"]
      waitUntilDurable_waits_for_second_sync [OF h1 h2, of "[(0, False), (0, True)]"]
    by (auto simp: n)
qed


text \<open>
  Claim C2 as stated fails: a fresh durable manager has counter 0 at entry; a wake-up that
  shows the counter at 1, above the value at entry, and no shutdown leaves the call
  blocked, however often it is repeated. The call compares the counter with the value at
  entry plus one, strictly.
\<close>

theorem waitUntilDurable_counterexample:
  "durable (KVDBDurabilityManager_ctor True 0) \<and>
   journalFlusher (KVDBDurabilityManager_ctor True 0) = Some KVDBJournalFlusher_ctor \<and>
   numSyncs (KVDBDurabilityManager_ctor True 0) = 0 \<and>
   fst (waitUntilDurable [(1, False)] (KVDBDurabilityManager_ctor True 0)) = Blocked \<and>
   fst (waitUntilDurable [(1, False), (1, False), (1, False)] (KVDBDurabilityManager_ctor True 0))
     = Blocked"
  by (simp add: waitUntilDurable_def KVDBDurabilityManager_ctor_def KVDBJournalFlusher_ctor_def
      notifyFlusher_def Let_def)


text \<open>
  Why the amended claim asks for the flusher: \<^verbatim>\<open>prepareForShutdown()\<close> that returns leaves
  the manager durable, with shutdown signalled and no flusher; a \<^verbatim>\<open>waitUntilDurable()\<close>
  after it calls \<^verbatim>\<open>notifyFlusher()\<close> through the null pointer before it looks at the
  shutdown flag.
\<close>

lemma waitUntilDurable_without_flusher:
  "snd (prepareForShutdown (calm_env 7 42) [0] (KVDBDurabilityManager_ctor True 0)) =
     Returned (Some ((KVDBDurabilityManager_ctor True 0)
       \<lparr>numSyncs := 1, shuttingDown := True, journalFlusher := None\<rparr>)) \<and>
   fst (waitUntilDurable wakeups ((KVDBDurabilityManager_ctor True 0)
       \<lparr>numSyncs := 1, shuttingDown := True, journalFlusher := None\<rparr>)) = NullFlusher"
  by (simp add: prepareForShutdown_def sync_def calm_env_def ok_def waitUntilDurable_def
      KVDBDurabilityManager_ctor_def Let_def)


section \<open>The durability manager: the sync counter\<close>

text \<open>
  Claim C3. The constructor sets the sync counter to 0. A \<^verbatim>\<open>sync()\<close> of a durable manager
  that returns has added exactly one. No operation lowers the counter: not \<^verbatim>\<open>sync()\<close>
  however it ends, not \<^verbatim>\<open>setJournalListener\<close>, \<^verbatim>\<open>setOplogVisibilityManager\<close>,
  \<^verbatim>\<open>waitUntilDurable\<close> or \<^verbatim>\<open>prepareForShutdown\<close> (a call that hangs on \<^verbatim>\<open>_oplogMutex\<close>
  changes nothing). After calls of \<^verbatim>\<open>sync()\<close> one after the other that all return, the
  counter is its value before plus the number of calls.
\<close>

theorem numSyncs_only_increases:
  "numSyncs (KVDBDurabilityManager_ctor dur lag) = 0 \<and>
   (durable d \<longrightarrow>
      (case snd (sync env d) of
         Returned d' \<Rightarrow> numSyncs d' = numSyncs d + 1
       | Threw e d' \<Rightarrow> True
       | Aborted \<Rightarrow> True
       | Hangs \<Rightarrow> True)) \<and>
   (case snd (sync env d) of
      Returned d' \<Rightarrow> numSyncs d \<le> numSyncs d'
    | Threw e d' \<Rightarrow> numSyncs d \<le> numSyncs d'
    | Aborted \<Rightarrow> True
    | Hangs \<Rightarrow> True) \<and>
   numSyncs (setJournalListener jl d) = numSyncs d \<and>
   (case setOplogVisibilityManager m d of
      Returned d' \<Rightarrow> numSyncs d' = numSyncs d
    | Threw e d' \<Rightarrow> False
    | Aborted \<Rightarrow> False
    | Hangs \<Rightarrow> oplogMutex d) \<and>
   numSyncs (snd (waitUntilDurable w d)) = numSyncs d \<and>
   (case snd (prepareForShutdown env ws d) of
      Returned (Some d') \<Rightarrow> numSyncs d \<le> numSyncs d'
    | Threw e (Some d') \<Rightarrow> numSyncs d \<le> numSyncs d'
    | _ \<Rightarrow> True) \<and>
   (durable d \<longrightarrow>
      (case sync_seq envs d of
         Returned d' \<Rightarrow> numSyncs d' = numSyncs d + length envs
       | _ \<Rightarrow> True))"
proof -
  have a: "numSyncs (KVDBDurabilityManager_ctor dur lag) = 0"
    by (simp add: KVDBDurabilityManager_ctor_def)
  have b: "case snd (sync env d) of Returned d' \<Rightarrow> numSyncs d' = numSyncs d + 1
           | Threw e d' \<Rightarrow> True | Aborted \<Rightarrow> True | Hangs \<Rightarrow> True" if "durable d"
    using sync_numSyncs_Returned [OF that] by (auto split: outcome.splits)
  have c: "numSyncs (setJournalListener jl d) = numSyncs d"
    by (simp add: setJournalListener_def)
  have e: "case setOplogVisibilityManager m d of
             Returned d' \<Rightarrow> numSyncs d' = numSyncs d
           | Threw e d' \<Rightarrow> False
           | Aborted \<Rightarrow> False
           | Hangs \<Rightarrow> oplogMutex d"
    by (simp add: setOplogVisibilityManager_def)
  have f: "case sync_seq envs d of Returned d' \<Rightarrow> numSyncs d' = numSyncs d + length envs
           | _ \<Rightarrow> True" if "durable d"
    using sync_seq_numSyncs [OF that] by (auto split: outcome.splits)
  show ?thesis
    using a b c e f sync_numSyncs_mono [where env = env and d = d]
      waitUntilDurable_numSyncs [of w d]
      prepareForShutdown_numSyncs [where env = env and ws = ws and d = d]
    by blast
qed


text \<open>Claim C3, at a fresh durable manager: one sync gives 1, three syncs give 3.\<close>

theorem numSyncs_only_increases_witness:
  "durable (KVDBDurabilityManager_ctor True 0) \<and>
   (\<exists>d'. snd (sync (calm_env 7 42) (KVDBDurabilityManager_ctor True 0)) = Returned d' \<and>
         numSyncs d' = 1) \<and>
   (\<exists>d'. sync_seq [calm_env 1 10, calm_env 2 20, calm_env 3 30]
           (KVDBDurabilityManager_ctor True 0) = Returned d' \<and> numSyncs d' = 3)"
proof -
  let ?d = "KVDBDurabilityManager_ctor True 0"
  have h: "durable ?d" by (simp add: KVDBDurabilityManager_ctor_def)
  have n: "numSyncs ?d = 0" by (simp add: KVDBDurabilityManager_ctor_def)
  have s1: "\<exists>d'. snd (sync (calm_env 7 42) ?d) = Returned d'"
    by (simp add: sync_def calm_env_def ok_def KVDBDurabilityManager_ctor_def Let_def)
  have s3: "\<exists>d'. sync_seq [calm_env 1 10, calm_env 2 20, calm_env 3 30] ?d = Returned d'"
    by (simp add: sync_def calm_env_def ok_def KVDBDurabilityManager_ctor_def Let_def)
  show ?thesis
    using h n s1 s3
      numSyncs_only_increases [where d = ?d and env = "calm_env 7 42"
        and envs = "[calm_env 1 10, calm_env 2 20, calm_env 3 30]"]
    by auto
qed


section \<open>The durability manager: failures\<close>

text \<open>
  A \<^verbatim>\<open>sync()\<close> aborts the process exactly when it reaches the flush and the flush fails;
  the last call it made is then \<^verbatim>\<open>kvdb_sync\<close>.
\<close>

lemma sync_Aborted_iff:
  "snd (sync env d) = Aborted \<longleftrightarrow>
     durable d \<and> (\<exists>t. getToken_r env = Inr t) \<and> \<not> oplogMutex d \<and>
     (oplogVisibilityManager d = None \<or> (\<exists>b. getCommitBoundary_r env = Inr b)) \<and>
     \<not> ok (Status (kvdb_sync_r env))"
  by (cases "getToken_r env"; cases "getCommitBoundary_r env"; cases "durableCallback_r env";
      cases "onDurable_r env")
     (auto simp: sync_def Let_def split: if_splits)

lemma sync_Aborted_last:
  "snd (sync env d) = Aborted \<Longrightarrow> last (fst (sync env d)) = KvdbSync"
  by (cases "getToken_r env"; cases "getCommitBoundary_r env"; cases "durableCallback_r env";
      cases "onDurable_r env")
     (auto simp: sync_def Let_def split: if_splits)

text \<open>
  What a \<^verbatim>\<open>sync()\<close> leaves of \<^verbatim>\<open>_oplogMutex\<close>. A call that starts with the mutex free and
  returns leaves it free. A call that raises leaves it held exactly when the exception
  came from \<^verbatim>\<open>getCommitBoundary()\<close> or \<^verbatim>\<open>durableCallback()\<close>, the two calls between
  \<^verbatim>\<open>lock()\<close> and \<^verbatim>\<open>unlock()\<close>: an exception from \<^verbatim>\<open>getToken()\<close> comes before the
  \<^verbatim>\<open>lock()\<close>, one from \<^verbatim>\<open>onDurable()\<close> after the \<^verbatim>\<open>unlock()\<close>. A durable call that gets
  its token while the mutex is held hangs.
\<close>

lemma sync_Returned_mutex:
  "\<not> oplogMutex d \<Longrightarrow> snd (sync env d) = Returned d' \<Longrightarrow> \<not> oplogMutex d'"
  by (cases "getToken_r env"; cases "getCommitBoundary_r env"; cases "durableCallback_r env";
      cases "onDurable_r env")
     (auto simp: sync_def Let_def split: if_splits)

lemma sync_Threw_mutex:
  "\<not> oplogMutex d \<Longrightarrow> snd (sync env d) = Threw e d' \<Longrightarrow>
     oplogMutex d' \<longleftrightarrow>
       (\<exists>t. getToken_r env = Inr t) \<and> oplogVisibilityManager d \<noteq> None \<and>
       (getCommitBoundary_r env = Inl e \<or>
        (\<exists>b. getCommitBoundary_r env = Inr b) \<and> durableCallback_r env = Some e)"
  by (cases "getToken_r env"; cases "getCommitBoundary_r env"; cases "durableCallback_r env";
      cases "onDurable_r env")
     (auto simp: sync_def Let_def split: if_splits)

lemma sync_Hangs_iff:
  "snd (sync env d) = Hangs \<longleftrightarrow> durable d \<and> (\<exists>t. getToken_r env = Inr t) \<and> oplogMutex d"
  by (cases "getToken_r env"; cases "getCommitBoundary_r env"; cases "durableCallback_r env";
      cases "onDurable_r env")
     (auto simp: sync_def Let_def split: if_splits)

text \<open>
  A round of the flusher that reaches its \<^verbatim>\<open>sync()\<close>: after a \<^verbatim>\<open>sync()\<close> that returns or
  raises a \<^verbatim>\<open>UserException\<close> with the code \<^verbatim>\<open>ShutdownInProgress\<close> the next round follows,
  from the manager as that \<^verbatim>\<open>sync()\<close> left it; a \<^verbatim>\<open>UserException\<close> with another code and
  a failed flush abort the process; any other exception leaves \<^verbatim>\<open>run()\<close> and ends the
  process in the job that runs it; a \<^verbatim>\<open>sync()\<close> that hangs leaves the worker hanging.
\<close>

lemma run_round:
  "run ((False, w, False, env) # rounds) d =
     (case snd (sync env (clear_pending w d)) of
        Returned d1 \<Rightarrow> run rounds d1
      | Aborted \<Rightarrow> RunAborted
      | Hangs \<Rightarrow> RunHangs
      | Threw (UserException c) d1 \<Rightarrow>
          if c = ShutdownInProgress then run rounds d1 else RunAborted
      | Threw OtherException d1 \<Rightarrow> RunUncaught OtherException)"
  by (cases "sync env (clear_pending w d)")
     (auto simp: run_try_def split: outcome.splits exn.splits)

lemma jobBody_round:
  "jobBody ((False, w, False, env) # rounds) d =
     (case snd (sync env (clear_pending w d)) of
        Returned d1 \<Rightarrow> jobBody rounds d1
      | Aborted \<Rightarrow> ProcessAborted
      | Hangs \<Rightarrow> JobHangs
      | Threw (UserException c) d1 \<Rightarrow>
          if c = ShutdownInProgress then jobBody rounds d1 else ProcessAborted
      | Threw OtherException d1 \<Rightarrow> ProcessAborted)"
  unfolding jobBody_def run_round
  by (auto split: outcome.splits exn.splits)

text \<open>At a fresh durable manager: a flush that fails with error 5 aborts the process; the
  worker goes on after a \<^verbatim>\<open>ShutdownInProgress\<close> from \<^verbatim>\<open>getToken()\<close> and syncs in its next
  round; another code and any other exception end the process.\<close>

lemma worker_rounds_sample:
  "sync ((calm_env 7 42)\<lparr>kvdb_sync_r := 5\<rparr>) (KVDBDurabilityManager_ctor True 0) =
     ([GetToken, KvdbSync], Aborted) \<and>
   jobBody [(False, False, False, (calm_env 7 42)\<lparr>kvdb_sync_r := 5\<rparr>)]
     (KVDBDurabilityManager_ctor True 0) = ProcessAborted \<and>
   jobBody [(False, False, False,
             (calm_env 7 42)\<lparr>getToken_r := Inl (UserException ShutdownInProgress)\<rparr>),
            (False, False, False, calm_env 8 43)]
     (KVDBDurabilityManager_ctor True 0) =
       JobRunning ((KVDBDurabilityManager_ctor True 0)\<lparr>numSyncs := 1\<rparr>) \<and>
   jobBody [(False, False, False,
             (calm_env 7 42)\<lparr>getToken_r := Inl (UserException (OtherCode 3))\<rparr>)]
     (KVDBDurabilityManager_ctor True 0) = ProcessAborted \<and>
   jobBody [(False, False, False, (calm_env 7 42)\<lparr>getToken_r := Inl OtherException\<rparr>)]
     (KVDBDurabilityManager_ctor True 0) = ProcessAborted"
  by (simp add: jobBody_def run_try_def sync_def calm_env_def ok_def clear_pending_def
      KVDBDurabilityManager_ctor_def Let_def)



section \<open>Cursor creation: the retry schedule\<close>








section \<open>Cursors: resuming after the last key\<close>

lemma before_irrefl: "\<not> before bw k k"
  by (simp add: before_def)

lemma before_trans: "before bw a b \<Longrightarrow> before bw b c \<Longrightarrow> before bw a c"
  by (auto simp: before_def split: if_splits)

lemma before_asym: "before bw a b \<Longrightarrow> \<not> before bw b a"
  by (auto simp: before_def split: if_splits)

lemma before_total: "before bw a b \<or> a = b \<or> before bw b a"
  by (auto simp: before_def)

lemma dropWhile_sorted:
  "sorted_wrt (\<lambda>a b. before bw (fst a) (fst b)) V \<Longrightarrow>
   dropWhile (\<lambda>kv. before bw (fst kv) K) V = filter (\<lambda>kv. \<not> before bw (fst kv) K) V"
proof (induction V)
  case Nil
  then show ?case by simp
next
  case (Cons x V)
  show ?case
  proof (cases "before bw (fst x) K")
    case True
    then show ?thesis using Cons by simp
  next
    case False
    have "\<forall>y \<in> set V. \<not> before bw (fst y) K"
    proof
      fix y assume "y \<in> set V"
      then have "before bw (fst x) (fst y)" using Cons.prems by simp
      then show "\<not> before bw (fst y) K" using False before_trans by blast
    qed
    then have "filter (\<lambda>kv. \<not> before bw (fst kv) K) V = V" by (simp add: filter_id_conv)
    then show ?thesis using False by simp
  qed
qed

lemma view_sorted:
  "view_ok bw V \<Longrightarrow> sorted_wrt (\<lambda>a b. before bw (fst a) (fst b)) V"
  by (simp add: view_ok_def sorted_wrt_map)

lemma seek_drop:
  assumes "view_ok bw V"
  shows "drop (length (takeWhile (\<lambda>kv. before bw (fst kv) K) V)) V =
         filter (\<lambda>kv. \<not> before bw (fst kv) K) V"
  using dropWhile_sorted [OF view_sorted [OF assms], of K]
  by (simp add: dropWhile_eq_drop)

lemma after_split:
  assumes "sorted_wrt (\<lambda>a b. before bw (fst a) (fst b)) V"
  shows "filter (\<lambda>kv. before bw K (fst kv)) V =
         (case filter (\<lambda>kv. \<not> before bw (fst kv) K) V of
            [] \<Rightarrow> []
          | x # xs \<Rightarrow> if fst x = K then xs else x # xs)"
  using assms
proof (induction V)
  case Nil
  then show ?case by simp
next
  case (Cons x V)
  have later: "\<forall>y \<in> set V. before bw (fst x) (fst y)" using Cons.prems by simp
  show ?case
  proof (cases "before bw (fst x) K")
    case True
    then have "\<not> before bw K (fst x)" using before_asym by blast
    then show ?thesis using True Cons by simp
  next
    case False
    have keep: "filter (\<lambda>kv. \<not> before bw (fst kv) K) V = V"
      using later False before_trans by (fastforce simp: filter_id_conv)
    show ?thesis
    proof (cases "fst x = K")
      case True
      then have "filter (\<lambda>kv. before bw K (fst kv)) V = V"
        using later by (simp add: filter_id_conv)
      then show ?thesis using True False keep by (simp add: before_irrefl)
    next
      case ne: False
      then have x: "before bw K (fst x)" using False before_total by blast
      then have "filter (\<lambda>kv. before bw K (fst kv)) V = V"
        using later before_trans by (fastforce simp: filter_id_conv)
      then show ?thesis using ne False x keep by simp
    qed
  qed
qed

lemma landed_iff_member:
  assumes "sorted_wrt (\<lambda>a b. before bw (fst a) (fst b)) V"
  shows "(K \<in> fst ` set V) =
         (case filter (\<lambda>kv. \<not> before bw (fst kv) K) V of [] \<Rightarrow> False | x # xs \<Rightarrow> fst x = K)"
  using assms
proof (induction V)
  case Nil
  then show ?case by simp
next
  case (Cons x V)
  have later: "\<forall>y \<in> set V. before bw (fst x) (fst y)" using Cons.prems by simp
  show ?case
  proof (cases "before bw (fst x) K")
    case True
    then have "fst x \<noteq> K" using before_irrefl by metis
    then show ?thesis using True Cons by simp
  next
    case False
    have "K \<notin> fst ` set V" if "fst x \<noteq> K"
    proof
      assume "K \<in> fst ` set V"
      then have "before bw (fst x) K" using later by auto
      then show False using False by simp
    qed
    then show ?thesis using False by auto
  qed
qed


lemma read_at:
  assumes "pos (c_cursor c) < length (view (c_cursor c))"
  shows "\<exists>c'. read to_errno 0 c = (0, False, Some (view (c_cursor c) ! pos (c_cursor c)), c') \<and>
          view (c_cursor c') = view (c_cursor c) \<and> pos (c_cursor c') = Suc (pos (c_cursor c)) \<and>
          readCounter c' = Suc (readCounter c) \<and> c_forward c' = c_forward c \<and>
          c_kvs_seek_key c' = None \<and> c_kvs_seek_klen c' = 0 \<and>
          c_kvs_key c' = Some (fst (view (c_cursor c) ! pos (c_cursor c))) \<and>
          c_kvs_klen c' = length (fst (view (c_cursor c) ! pos (c_cursor c)))"
  using assms
  by (cases "view (c_cursor c) ! pos (c_cursor c)")
     (simp add: read_def read_kvs_def hse_kvs_cursor_read_def ok_def getErrno_def Let_def)

lemma read_end:
  assumes "\<not> pos (c_cursor c) < length (view (c_cursor c))"
  shows "\<exists>c'. read to_errno 0 c = (0, True, None, c')"
  using assms
  by (simp add: read_def read_kvs_def hse_kvs_cursor_read_def ok_def getErrno_def Let_def)

lemma read_keys_drop:
  "read_keys to_errno n c = take n (drop (pos (c_cursor c)) (view (c_cursor c)))"
proof (induction n arbitrary: c)
  case 0
  then show ?case by simp
next
  case (Suc n)
  show ?case
  proof (cases "pos (c_cursor c) < length (view (c_cursor c))")
    case True
    from read_at [OF True, of to_errno] obtain c' where
      r: "read to_errno 0 c = (0, False, Some (view (c_cursor c) ! pos (c_cursor c)), c')" and
      v: "view (c_cursor c') = view (c_cursor c)" and
      p: "pos (c_cursor c') = Suc (pos (c_cursor c))"
      by blast
    have "drop (pos (c_cursor c)) (view (c_cursor c)) =
          view (c_cursor c) ! pos (c_cursor c) # drop (Suc (pos (c_cursor c))) (view (c_cursor c))"
      using True by (simp add: Cons_nth_drop_Suc)
    then show ?thesis using r v p Suc.IH [of c'] by simp
  next
    case False
    from read_end [OF False, of to_errno] obtain c' where
      "read to_errno 0 c = (0, True, None, c')" by blast
    then show ?thesis using False by simp
  qed
qed

lemma read_Some_state:
  assumes "read to_errno 0 c0 = (r, e, Some (K, v), c)"
  shows "c_kvs_seek_key c = None \<and> c_kvs_seek_klen c = 0 \<and> c_kvs_key c = Some K \<and>
         c_kvs_klen c = length K"
proof (cases "pos (c_cursor c0) < length (view (c_cursor c0))")
  case True
  from read_at [OF True, of to_errno] obtain c' where
    r: "read to_errno 0 c0 = (0, False, Some (view (c_cursor c0) ! pos (c_cursor c0)), c')" and
    f: "c_kvs_seek_key c' = None" "c_kvs_seek_klen c' = 0"
       "c_kvs_key c' = Some (fst (view (c_cursor c0) ! pos (c_cursor c0)))"
       "c_kvs_klen c' = length (fst (view (c_cursor c0) ! pos (c_cursor c0)))"
    by blast
  have "view (c_cursor c0) ! pos (c_cursor c0) = (K, v)" "c' = c" using r assms by simp_all
  then show ?thesis using f by simp
next
  case False
  from read_end [OF False, of to_errno] assms show ?thesis by auto
qed

lemma seek_Some_state:
  assumes "seek 0 target c0 = (st, Some S, c)" and "S \<noteq> []"
  shows "c_kvs_seek_key c = Some S \<and> c_kvs_seek_klen c = length S"
  using assms
  by (auto simp: seek_def hse_kvs_cursor_seek_def ok_def Let_def split: if_splits)

lemma update_seek_to:
  assumes key: "seekKey_of (if c_kvs_seek_key c \<noteq> None then c_kvs_seek_key c else c_kvs_key c)
                  (if c_kvs_seek_klen c \<noteq> 0 then c_kvs_seek_klen c else c_kvs_klen c) = Inr K"
    and nv: "view_ok (\<not> c_forward c) (new_view ans)"
    and cr: "kvs_cursor_create_loop to_errno (create_errs ans) = Created log"
    and se: "seek_err ans = 0" and re: "read_err ans = 0" and ne: "K \<noteq> []"
  shows "\<exists>c'. update to_errno ans c = Updated (Status 0) c' log \<and>
          view (c_cursor c') = new_view ans \<and>
          (if c_kvs_seek_key c = None \<and> c_kvs_key c \<noteq> None
           then readCounter c' =
                  readCounter c + (if K \<in> fst ` set (new_view ans) then 1 else 0) \<and>
                drop (pos (c_cursor c')) (new_view ans) =
                  filter (\<lambda>kv. before (\<not> c_forward c) K (fst kv)) (new_view ans)
           else readCounter c' = readCounter c \<and>
                drop (pos (c_cursor c')) (new_view ans) =
                  filter (\<lambda>kv. \<not> before (\<not> c_forward c) (fst kv) K) (new_view ans))"
proof -
  let ?V = "new_view ans" and ?bw = "\<not> c_forward c"
  let ?P = "\<lambda>kv. before ?bw (fst kv) K"
  let ?i = "length (takeWhile ?P ?V)"
  let ?F = "filter (\<lambda>kv. \<not> ?P kv) ?V"
  let ?last = "c_kvs_seek_key c = None \<and> c_kvs_key c \<noteq> None"
  have srt: "sorted_wrt (\<lambda>a b. before ?bw (fst a) (fst b)) ?V" using view_sorted [OF nv] .
  have dr: "drop ?i ?V = ?F" using seek_drop [OF nv] .
  have nonempty: "\<forall>kv \<in> set ?V. fst kv \<noteq> []" using nv by (force simp: view_ok_def)
  show ?thesis
  proof (cases "?i < length ?V")
    case False
    then have F: "?F = []" using dr by simp
    have aft: "filter (\<lambda>kv. before ?bw K (fst kv)) ?V = []"
      using after_split [OF srt, of K] F by simp
    have mem: "K \<notin> fst ` set ?V" using landed_iff_member [OF srt, of K] F by simp
    have dr0: "drop ?i ?V = []" using False by simp
    show ?thesis
      using key cr se re ne False F aft mem dr0
      by (simp add: update_def Let_def hse_kvs_cursor_seek_def ok_def)
  next
    case True
    obtain k v where kv: "?V ! ?i = (k, v)" by (cases "?V ! ?i")
    have F: "?F = (k, v) # drop (Suc ?i) ?V"
      using dr True kv by (simp add: Cons_nth_drop_Suc [symmetric])
    have kne: "k \<noteq> []" using nonempty True kv nth_mem [OF True] by force
    have cmp: "(length K = length k \<and> memcmp_eq K (Some k) (length k)) = (k = K)"
      using kne by (auto simp: memcmp_eq_def)
    show ?thesis
    proof (cases "k = K")
      case eq: True
      have aft: "filter (\<lambda>kv. before ?bw K (fst kv)) ?V = drop (Suc ?i) ?V"
        using after_split [OF srt, of K] F eq by simp
      have mem: "K \<in> fst ` set ?V" using landed_iff_member [OF srt, of K] F eq by simp
      show ?thesis
        using key cr se re True kv cmp eq aft mem dr
        by (simp add: update_def Let_def hse_kvs_cursor_seek_def ok_def read_kvs_def
            hse_kvs_cursor_read_def)
    next
      case neq: False
      have aft: "filter (\<lambda>kv. before ?bw K (fst kv)) ?V = drop ?i ?V"
        using after_split [OF srt, of K] F neq dr by simp
      have mem: "K \<notin> fst ` set ?V" using landed_iff_member [OF srt, of K] F neq by simp
      show ?thesis
        using key cr se re True kv cmp neq aft mem dr
        by (auto simp: update_def Let_def hse_kvs_cursor_seek_def ok_def)
    qed
  qed
qed


lemma read_keys_all:
  assumes "view (c_cursor c) = V"
  shows "read_keys to_errno (length V) c = drop (pos (c_cursor c)) V"
  using assms by (simp add: read_keys_drop)

lemma sample_facts:
  "view_ok False five_keys" "view_ok False four_keys"
  "kvs_cursor_create_loop f (create_errs (willing v)) = Created [CursorCreate]"
  "seek_err (willing v) = 0" "read_err (willing v) = 0" "new_view (willing v) = v"
  "read f 0 cursor_at_2 = (0, False, Some ([3], [13]), cursor_at_3)"
  "seek 0 [3] cursor_at_2 = (Status 0, Some [3], cursor_sought_3)"
  "c_forward cursor_at_3" "c_forward cursor_sought_3"
  "readCounter cursor_at_3 = 3" "readCounter cursor_sought_3 = 2"
  by (simp_all add: view_ok_def before_def five_keys_def four_keys_def willing_def
      kvs_cursor_create_loop_def ok_def warning_of_def FIB_LEN_def read_def read_kvs_def
      hse_kvs_cursor_read_def getErrno_def seek_def hse_kvs_cursor_seek_def cursor_at_2_def
      cursor_at_3_def cursor_sought_3_def Let_def)


text \<open>
  \<^verbatim>\<open>update()\<close> after an operation that left a key. Let \<^verbatim>\<open>update()\<close> run on a cursor while
  the store creates the new native cursor (possibly after retries) over a well-formed view
  and fails neither the seek nor a read. If the operation before was a read that returned
  the key \<open>K\<close>, then \<^verbatim>\<open>update()\<close> returns
  ok; it makes one internal read when \<open>K\<close> is in the new view (the seek lands on \<open>K\<close>) and
  none when it is not; and the reads that follow return exactly the keys of the new view
  that come strictly after \<open>K\<close> in iteration order, each once and in order: the first of
  them is the successor of \<open>K\<close>, or the key the seek landed on when \<open>K\<close> was deleted. If the
  operation before was a seek that landed on the key \<open>S\<close>, then \<^verbatim>\<open>update()\<close> makes no
  internal read, and the reads that follow return the keys of the new view from \<open>S\<close> on.
  Keys are not empty and shorter than \<open>2^31\<close> bytes.
\<close>

theorem update_resumes_after_last_key:
  assumes nv: "view_ok (\<not> c_forward c) (new_view ans)"
    and cr: "kvs_cursor_create_loop to_errno (create_errs ans) = Created log"
    and se: "seek_err ans = 0" and re: "read_err ans = 0"
  shows
    "(\<forall>c0 K v. read to_errno 0 c0 = (0, False, Some (K, v), c) \<and> K \<noteq> [] \<and> length K < 2 ^ 31 \<longrightarrow>
        (\<exists>c'. update to_errno ans c = Updated (Status 0) c' log \<and>
              readCounter c' =
                readCounter c + (if K \<in> fst ` set (new_view ans) then 1 else 0) \<and>
              read_keys to_errno (length (new_view ans)) c' =
                filter (\<lambda>kv. before (\<not> c_forward c) K (fst kv)) (new_view ans))) \<and>
     (\<forall>c0 target S. seek 0 target c0 = (Status 0, Some S, c) \<and> S \<noteq> [] \<and> length S < 2 ^ 31 \<longrightarrow>
        (\<exists>c'. update to_errno ans c = Updated (Status 0) c' log \<and>
              readCounter c' = readCounter c \<and>
              read_keys to_errno (length (new_view ans)) c' =
                filter (\<lambda>kv. \<not> before (\<not> c_forward c) (fst kv) S) (new_view ans)))"
proof (intro conjI allI impI)
  fix c0 K v
  assume h: "read to_errno 0 c0 = (0, False, Some (K, v), c) \<and> K \<noteq> [] \<and> length K < 2 ^ 31"
  then have st: "c_kvs_seek_key c = None" "c_kvs_seek_klen c = 0" "c_kvs_key c = Some K"
      "c_kvs_klen c = length K"
    using read_Some_state [of to_errno c0 0 False K v c] by simp_all
  have key: "seekKey_of (if c_kvs_seek_key c \<noteq> None then c_kvs_seek_key c else c_kvs_key c)
                  (if c_kvs_seek_klen c \<noteq> 0 then c_kvs_seek_klen c else c_kvs_klen c) = Inr K"
    using st h by (simp add: seekKey_of_def)
  from update_seek_to [OF key nv cr se re] h st obtain c' where
    u: "update to_errno ans c = Updated (Status 0) c' log" and
    vw: "view (c_cursor c') = new_view ans" and
    rc: "readCounter c' = readCounter c + (if K \<in> fst ` set (new_view ans) then 1 else 0)" and
    dr: "drop (pos (c_cursor c')) (new_view ans) =
           filter (\<lambda>kv. before (\<not> c_forward c) K (fst kv)) (new_view ans)"
    by auto
  show "\<exists>c'. update to_errno ans c = Updated (Status 0) c' log \<and>
          readCounter c' = readCounter c + (if K \<in> fst ` set (new_view ans) then 1 else 0) \<and>
          read_keys to_errno (length (new_view ans)) c' =
            filter (\<lambda>kv. before (\<not> c_forward c) K (fst kv)) (new_view ans)"
    using u rc dr read_keys_all [OF vw, of to_errno] by auto
next
  fix c0 target S
  assume h: "seek 0 target c0 = (Status 0, Some S, c) \<and> S \<noteq> [] \<and> length S < 2 ^ 31"
  then have st: "c_kvs_seek_key c = Some S" "c_kvs_seek_klen c = length S"
    using seek_Some_state [of target c0 "Status 0" S c] by simp_all
  have key: "seekKey_of (if c_kvs_seek_key c \<noteq> None then c_kvs_seek_key c else c_kvs_key c)
                  (if c_kvs_seek_klen c \<noteq> 0 then c_kvs_seek_klen c else c_kvs_klen c) = Inr S"
    using st h by (simp add: seekKey_of_def)
  from update_seek_to [OF key nv cr se re] h st obtain c' where
    u: "update to_errno ans c = Updated (Status 0) c' log" and
    vw: "view (c_cursor c') = new_view ans" and
    rc: "readCounter c' = readCounter c" and
    dr: "drop (pos (c_cursor c')) (new_view ans) =
           filter (\<lambda>kv. \<not> before (\<not> c_forward c) (fst kv) S) (new_view ans)"
    by auto
  show "\<exists>c'. update to_errno ans c = Updated (Status 0) c' log \<and>
          readCounter c' = readCounter c \<and>
          read_keys to_errno (length (new_view ans)) c' =
            filter (\<lambda>kv. \<not> before (\<not> c_forward c) (fst kv) S) (new_view ans)"
    using u rc dr read_keys_all [OF vw, of to_errno] by auto
qed


text \<open>On the store of five keys: after reading \<open>[3]\<close>, \<^verbatim>\<open>update()\<close> makes one
  internal read and the next reads return \<open>[4]\<close> and \<open>[5]\<close>; with \<open>[3]\<close> deleted it makes
  none and the next reads return \<open>[4]\<close> and \<open>[5]\<close>; after a seek to \<open>[3]\<close> it makes none and
  the next reads return \<open>[3]\<close>, \<open>[4]\<close> and \<open>[5]\<close>.\<close>

theorem update_resumes_after_last_key_witness:
  "read (\<lambda>e. 5) 0 cursor_at_2 = (0, False, Some ([3], [13]), cursor_at_3) \<and>
   (\<exists>c'. update (\<lambda>e. 5) (willing five_keys) cursor_at_3 = Updated (Status 0) c' [CursorCreate] \<and>
         readCounter c' = 4 \<and>
         read_keys (\<lambda>e. 5) (length five_keys) c' = [([4], [14]), ([5], [15])]) \<and>
   (\<exists>c'. update (\<lambda>e. 5) (willing four_keys) cursor_at_3 = Updated (Status 0) c' [CursorCreate] \<and>
         readCounter c' = 3 \<and>
         read_keys (\<lambda>e. 5) (length four_keys) c' = [([4], [14]), ([5], [15])]) \<and>
   seek 0 [3] cursor_at_2 = (Status 0, Some [3], cursor_sought_3) \<and>
   (\<exists>c'. update (\<lambda>e. 5) (willing five_keys) cursor_sought_3 =
           Updated (Status 0) c' [CursorCreate] \<and>
         readCounter c' = 2 \<and>
         read_keys (\<lambda>e. 5) (length five_keys) c' = [([3], [13]), ([4], [14]), ([5], [15])])"
proof -
  let ?f = "\<lambda>e :: ulong. 5 :: int"
  have v5: "view_ok (\<not> c_forward cursor_at_3) (new_view (willing five_keys))"
    and v4: "view_ok (\<not> c_forward cursor_at_3) (new_view (willing four_keys))"
    and v5s: "view_ok (\<not> c_forward cursor_sought_3) (new_view (willing five_keys))"
    by (simp_all add: sample_facts)
  note a = update_resumes_after_last_key
            [OF v5 sample_facts(3) sample_facts(4) sample_facts(5), of ?f]
  note b = update_resumes_after_last_key
            [OF v4 sample_facts(3) sample_facts(4) sample_facts(5), of ?f]
  note c = update_resumes_after_last_key
            [OF v5s sample_facts(3) sample_facts(4) sample_facts(5), of ?f]
  have a': "\<exists>c'. update ?f (willing five_keys) cursor_at_3 = Updated (Status 0) c' [CursorCreate] \<and>
         readCounter c' = 4 \<and> read_keys ?f (length five_keys) c' = [([4], [14]), ([5], [15])]"
    using a [THEN conjunct1, rule_format, of cursor_at_2 "[3]" "[13]"]
    by (simp add: sample_facts) (simp add: five_keys_def before_def del: read_keys.simps)
  have b': "\<exists>c'. update ?f (willing four_keys) cursor_at_3 = Updated (Status 0) c' [CursorCreate] \<and>
         readCounter c' = 3 \<and> read_keys ?f (length four_keys) c' = [([4], [14]), ([5], [15])]"
    using b [THEN conjunct1, rule_format, of cursor_at_2 "[3]" "[13]"]
    by (simp add: sample_facts) (simp add: four_keys_def before_def del: read_keys.simps)
  have c': "\<exists>c'. update ?f (willing five_keys) cursor_sought_3 =
           Updated (Status 0) c' [CursorCreate] \<and>
         readCounter c' = 2 \<and> read_keys ?f (length five_keys) c' = [([3], [13]), ([4], [14]), ([5], [15])]"
    using c [THEN conjunct2, rule_format, of "[3]" cursor_at_2 "[3]"]
    by (simp add: sample_facts) (simp add: five_keys_def before_def del: read_keys.simps)
  show ?thesis using a' b' c' by (simp add: sample_facts)
qed


section \<open>Cursors: update after a seek that found no key\<close>


section \<open>The oplog store thread is started once\<close>

lemma initOplogStoreThread_result:
  "fst (initOplogStoreThread oplog repair ns st) = (oplog ns \<and> \<not> repair)"
  by (simp add: initOplogStoreThread_def)

lemma initOplogStoreThread_state:
  "snd (initOplogStoreThread oplog repair ns st) =
     (if oplog ns \<and> \<not> repair \<and> ns \<notin> backgroundThreadNamespaces st
      then st\<lparr>started := started st @ [ns],
              backgroundThreadNamespaces := insert ns (backgroundThreadNamespaces st)\<rparr>
      else st)"
  by (simp add: initOplogStoreThread_def)

lemma init_calls_invariant:
  assumes "distinct (started st)" and "set (started st) = backgroundThreadNamespaces st"
  shows "case init_calls oplog calls st of
           (rs, st') \<Rightarrow>
             rs = map (\<lambda>c. oplog (snd c) \<and> \<not> fst c) calls \<and>
             distinct (started st') \<and>
             set (started st') = backgroundThreadNamespaces st' \<and>
             backgroundThreadNamespaces st' =
               backgroundThreadNamespaces st \<union> {ns. (False, ns) \<in> set calls \<and> oplog ns}"
  using assms
proof (induction calls arbitrary: st)
  case Nil
  then show ?case by simp
next
  case (Cons c calls)
  obtain repair ns where c: "c = (repair, ns)" by (cases c)
  let ?st1 = "snd (initOplogStoreThread oplog repair ns st)"
  have r: "initOplogStoreThread oplog repair ns st = (oplog ns \<and> \<not> repair, ?st1)"
    using initOplogStoreThread_result [of oplog repair ns st] by (simp add: prod_eq_iff)
  have d1: "distinct (started ?st1)"
    using Cons.prems by (auto simp: initOplogStoreThread_state)
  have s1: "set (started ?st1) = backgroundThreadNamespaces ?st1"
    using Cons.prems by (auto simp: initOplogStoreThread_state)
  have b1: "backgroundThreadNamespaces ?st1 =
      backgroundThreadNamespaces st \<union> {x. x = ns \<and> \<not> repair \<and> oplog ns}"
    by (auto simp: initOplogStoreThread_state)
  from Cons.IH [OF d1 s1] show ?case
    using c r b1 by (auto split: prod.splits)
qed


text \<open>
  Claim C10. Take any sequence of calls of \<^verbatim>\<open>initOplogStoreThread\<close>, starting with no
  namespace registered. Each call returns false when its namespace is not an oplog
  namespace or repair is active, and true otherwise. The background jobs started are
  pairwise different: one for each oplog namespace that was passed by some call outside
  repair, and no other. A further call returns by the same rule, and when its namespace
  already has its job the call changes nothing: no job is started.
\<close>

theorem oplog_thread_started_once:
  "(case init_calls oplog calls oplog_threads_init of
      (rs, st) \<Rightarrow>
        rs = map (\<lambda>c. oplog (snd c) \<and> \<not> fst c) calls \<and>
        distinct (started st) \<and>
        set (started st) = {ns. (False, ns) \<in> set calls \<and> oplog ns}) \<and>
   (case init_calls oplog calls oplog_threads_init of
      (rs, st) \<Rightarrow>
        (case initOplogStoreThread oplog repair ns st of
           (r, st') \<Rightarrow>
             r = (oplog ns \<and> \<not> repair) \<and>
             (if ns \<in> set (started st) then st' = st else True)))"
proof -
  have i: "distinct (started oplog_threads_init)"
    "set (started oplog_threads_init) = backgroundThreadNamespaces oplog_threads_init"
    by (simp_all add: oplog_threads_init_def)
  obtain rs st where e: "init_calls oplog calls oplog_threads_init = (rs, st)"
    by (cases "init_calls oplog calls oplog_threads_init")
  have inv: "rs = map (\<lambda>c. oplog (snd c) \<and> \<not> fst c) calls" "distinct (started st)"
    "set (started st) = backgroundThreadNamespaces st"
    "backgroundThreadNamespaces st = {ns. (False, ns) \<in> set calls \<and> oplog ns}"
    using init_calls_invariant [OF i, of oplog calls] e
    by (simp_all add: oplog_threads_init_def)
  show ?thesis
    using e inv by (auto simp: initOplogStoreThread_def)
qed

text \<open>Claim C10, at four calls: the oplog namespace \<^verbatim>\<open>local.oplog.rs\<close> twice, another
  namespace, and an oplog namespace during repair. One job is started.\<close>

theorem oplog_thread_started_once_witness:
  "init_calls (\<lambda>ns. take 12 ns = ''local.oplog.'')
     [(False, ''local.oplog.rs''), (False, ''a.b''), (True, ''local.oplog.x''),
      (False, ''local.oplog.rs'')] oplog_threads_init =
     ([True, False, False, True],
      \<lparr>backgroundThreadNamespaces = {''local.oplog.rs''}, started = [''local.oplog.rs'']\<rparr>) \<and>
   initOplogStoreThread (\<lambda>ns. take 12 ns = ''local.oplog.'') False ''local.oplog.rs''
     \<lparr>backgroundThreadNamespaces = {''local.oplog.rs''}, started = [''local.oplog.rs'']\<rparr> =
     (True, \<lparr>backgroundThreadNamespaces = {''local.oplog.rs''}, started = [''local.oplog.rs'']\<rparr>)"
proof -
  let ?oplog = "\<lambda>ns :: string. take 12 ns = ''local.oplog.''"
  let ?calls = "[(False, ''local.oplog.rs''), (False, ''a.b''), (True, ''local.oplog.x''),
      (False, ''local.oplog.rs'')]"
  let ?st = "\<lparr>backgroundThreadNamespaces = {''local.oplog.rs''}, started = [''local.oplog.rs'']\<rparr>"
  have run: "init_calls ?oplog ?calls oplog_threads_init = ([True, False, False, True], ?st)"
    by (simp add: initOplogStoreThread_def oplog_threads_init_def)
  show ?thesis
    using run
      oplog_thread_started_once [where oplog = ?oplog and calls = ?calls and repair = False
        and ns = "''local.oplog.rs''"]
    by (auto split: prod.splits)
qed

end
